theory Spec2Isabelle
  imports Main "HOL-Library.Sublist"
begin

text \<open>
  A model of the Twilio function \<open>ios26_CallScreeningDetection_Transcriptions\<close>: the
  pattern functions, the per-call state kept in five maps, the scenario detection run on
  every transcript, the three action functions and the webhook handler. Webhooks are
  handled one after the other; what the function logs is left out.
\<close>

section \<open>Strings as the pattern functions use them\<close>

text \<open>
  A JavaScript string is modelled as a \<^typ>\<open>string\<close>, one \<^typ>\<open>char\<close> per code unit
  (code units 0 to 255). \<open>toLowerCase\<close> maps the upper-case letters of that range to
  their lower-case partners; \<open>\s\<close> and \<open>trim\<close> see the white-space characters of
  that range (tab, line feed, vertical tab, form feed, carriage return, space, no-break
  space).
\<close>

definition lower_unit :: "char \<Rightarrow> char" where
  "lower_unit c =
     (let n = (of_char c :: nat)
      in if (65 \<le> n \<and> n \<le> 90) \<or> (192 \<le> n \<and> n \<le> 222 \<and> n \<noteq> 215)
         then char_of (n + 32) else c)"

definition toLowerCase :: "string \<Rightarrow> string" where
  "toLowerCase text = map lower_unit text"

definition is_space :: "char \<Rightarrow> bool" where
  "is_space c = ((of_char c :: nat) \<in> {9, 10, 11, 12, 13, 32, 160})"

definition trim :: "string \<Rightarrow> string" where
  "trim text = rev (dropWhile is_space (rev (dropWhile is_space text)))"

fun startsWith :: "string \<Rightarrow> string \<Rightarrow> bool" where
  "startsWith text [] = True"
| "startsWith [] (p # ps) = False"
| "startsWith (c # cs) (p # ps) = (c = p \<and> startsWith cs ps)"

fun str_includes :: "string \<Rightarrow> string \<Rightarrow> bool" where
  "str_includes [] pat = (pat = [])"
| "str_includes (c # cs) pat = (startsWith (c # cs) pat \<or> str_includes cs pat)"

text \<open>
  \<open>text.split(/\s+/)\<close>: the pieces between the maximal runs of white space; a run at
  either end leaves an empty piece there, as in JavaScript.
\<close>

fun split_ws :: "string \<Rightarrow> string list" where
  "split_ws [] = [[]]"
| "split_ws (c # cs) =
     (if is_space c
      then (if cs \<noteq> [] \<and> is_space (hd cs) then split_ws cs else [] # split_ws cs)
      else (case split_ws cs of [] \<Rightarrow> [[c]] | w # ws \<Rightarrow> (c # w) # ws))"

definition some :: "string list \<Rightarrow> (string \<Rightarrow> bool) \<Rightarrow> bool" where
  "some patterns p = list_ex p patterns"

section \<open>Pattern detection\<close>

definition ios26Patterns :: "string list" where
  "ios26Patterns =
     [''record your name and reason for calling'',
      ''if you record your name'',
      ''name and reason for calling'',
      ''see if this person is available'',
      ''i'' @ [CHR 0x27] @ ''ll see if this person'',
      ''record your name'',
      ''reason for calling'',
      ''reason for your call'',
      ''state your name'',
      ''say your name'',
      ''this person is available'',
      ''see if this person'',
      ''checking if this person'']"

definition detectIOS26Patterns :: "string \<Rightarrow> bool" where
  "detectIOS26Patterns text =
     (if text = [] then False
      else (let lowerText = toLowerCase text
            in some ios26Patterns (\<lambda>pattern. str_includes lowerText pattern)))"

definition intermediatePatterns :: "string list" where
  "intermediatePatterns =
     [''thanks'',
      ''thank you'',
      ''please stay on the line'',
      ''stay on the line'',
      ''please hold'',
      ''one moment'']"

definition detectIntermediatePrompts :: "string \<Rightarrow> bool" where
  "detectIntermediatePrompts text =
     (if text = [] then False
      else (let lowerText = toLowerCase text;
                words = split_ws lowerText
            in if length words > 10 then False
               else some intermediatePatterns (\<lambda>pattern. str_includes lowerText pattern)))"

definition voicemailPatterns :: "string list" where
  "voicemailPatterns =
     [''leave a message'',
      ''leave an additional message'',
      ''after the tone'',
      ''after the beep'',
      ''not available'',
      ''unable to take your call'',
      ''voicemail'',
      ''please leave'',
      ''at the sound of the beep'',
      ''can'' @ [CHR 0x27] @ ''t come to the phone'',
      ''cannot come to the phone'',
      ''can'' @ [CHR 0x27] @ ''t take your call'',
      ''cannot take your call'',
      ''please call back'',
      ''call back later'',
      ''try again later'',
      ''leave your name and number'',
      ''record your message'',
      ''recording'',
      ''mailbox'',
      ''call has been forwarded'',
      ''forwarded to voicemail'',
      ''forwarded to an automatic voice message'',
      ''person you are trying to reach'',
      ''person you'' @ [CHR 0x27] @ ''re trying to reach'',
      ''person you are calling'',
      ''subscriber you are calling'',
      ''subscriber you have called'',
      ''is unavailable'',
      ''is not available'']"

definition detectVoicemailPatterns :: "string \<Rightarrow> bool" where
  "detectVoicemailPatterns text =
     (if text = [] then False
      else (let lowerText = toLowerCase text
            in some voicemailPatterns (\<lambda>pattern. str_includes lowerText pattern)))"

definition voicemailGreetingPatterns :: "string list" where
  "voicemailGreetingPatterns =
     [''can'' @ [CHR 0x27] @ ''t come to the phone'',
      ''cannot come to the phone'',
      ''can'' @ [CHR 0x27] @ ''t take your call'',
      ''cannot take your call'',
      ''not available right now'',
      ''not available to take'',
      ''unable to answer'',
      ''away from my phone'',
      ''please leave a message'',
      ''you'' @ [CHR 0x27] @ ''ve reached'',
      ''you have reached'',
      ''this is the voicemail'',
      ''at the tone'']"

definition humanPatterns :: "string list" where
  "humanPatterns =
     [''who is this'',
      ''who are you'',
      ''what do you want'',
      ''hold on'',
      ''wait'',
      ''speaking'',
      ''this is'']"

definition detectHumanSpeech :: "string \<Rightarrow> bool" where
  "detectHumanSpeech text =
     (if text = [] then False
      else (let lowerText = toLowerCase text
            in if detectIOS26Patterns text \<or> detectVoicemailPatterns text then False
               else if detectIntermediatePrompts text then False
               else if some voicemailGreetingPatterns (\<lambda>pattern. str_includes lowerText pattern)
                    then False
               else (let hasHumanPattern =
                           some humanPatterns (\<lambda>pattern. str_includes lowerText pattern);
                         hasQuestionMark = str_includes text ''?'';
                         hasInteractiveQuestion =
                           (hasQuestionMark \<and>
                            (str_includes lowerText ''who'' \<or> str_includes lowerText ''what''
                             \<or> str_includes lowerText ''why''))
                     in hasHumanPattern \<or> hasInteractiveQuestion)))"

section \<open>The state of the function\<close>

text \<open>
  The five process-wide maps, keyed by call id, and a trace. The trace is not part of
  the source: it records, in the order in which they happen, the writes to
  \<open>callStates\<close> and \<open>processedActions\<close>, the clean-up of a call, the calls of the three
  action functions and what these ask of the REST client.

  \<open>UNKNOWN\<close> is what \<open>getCallState\<close> answers for a call without an entry.
\<close>

type_synonym sid = string

datatype call_state = UNKNOWN | INITIAL | IOS26_MONITORING | PASSTHROUGH | VOICEMAIL_DELIVERED

datatype action_tag =
  human_passthrough | human_passthrough_fallback | voicemail_direct
  | voicemail_after_ios26 | human_after_ios26

datatype action = Identify | LeaveVoicemail | Passthrough

datatype effect =
  StateWrite sid call_state
  | Marked sid action_tag
  | CleanedUp sid
  | Invoked sid action
  | ApiDelay nat
  | ApiFetch sid
  | ApiUpdate sid action

record sys =
  callStates :: "sid \<rightharpoonup> call_state"
  callTranscripts :: "sid \<rightharpoonup> string"
  callStartTimes :: "sid \<rightharpoonup> int"
  amdResults :: "sid \<rightharpoonup> string"
  processedActions :: "sid \<rightharpoonup> action_tag set"
  trace :: "effect list"

definition empty_sys :: sys where
  "empty_sys =
     \<lparr>callStates = Map.empty, callTranscripts = Map.empty, callStartTimes = Map.empty,
      amdResults = Map.empty, processedActions = Map.empty, trace = []\<rparr>"

text \<open>
  What one invocation of the function sees of the outside: the clock (\<open>Date.now()\<close>, in
  milliseconds, taken as one reading per invocation), and what the REST client would
  answer: the fetched call (\<open>None\<close> when the fetch throws), the clock when that
  answer is looked at, and the outcome of an update.
\<close>

record live_call =
  status :: string
  dateUpdated :: "int option"

datatype update_outcome = UpdateOk | UpdateFails "int option" string

record world =
  now :: int
  fetch_result :: "live_call option"
  fetch_clock :: int
  update_result :: update_outcome

definition emit :: "effect list \<Rightarrow> sys \<Rightarrow> sys" where
  "emit es st = st\<lparr>trace := trace st @ es\<rparr>"

definition initializeCallState :: "world \<Rightarrow> sid \<Rightarrow> sys \<Rightarrow> sys" where
  "initializeCallState w callSid st =
     emit [StateWrite callSid INITIAL]
       (st\<lparr>callStates := (callStates st)(callSid \<mapsto> INITIAL),
           callStartTimes := (callStartTimes st)(callSid \<mapsto> now w),
           callTranscripts := (callTranscripts st)(callSid \<mapsto> [])\<rparr>)"

definition getCallState :: "sys \<Rightarrow> sid \<Rightarrow> call_state" where
  "getCallState st callSid = (case callStates st callSid of None \<Rightarrow> UNKNOWN | Some s \<Rightarrow> s)"

definition setCallState :: "sid \<Rightarrow> call_state \<Rightarrow> sys \<Rightarrow> sys" where
  "setCallState callSid newState st =
     emit [StateWrite callSid newState] (st\<lparr>callStates := (callStates st)(callSid \<mapsto> newState)\<rparr>)"

definition setAMDResult :: "sid \<Rightarrow> string \<Rightarrow> sys \<Rightarrow> sys" where
  "setAMDResult callSid result st = st\<lparr>amdResults := (amdResults st)(callSid \<mapsto> result)\<rparr>"

definition getAMDResult :: "sys \<Rightarrow> sid \<Rightarrow> string option" where
  "getAMDResult st callSid = amdResults st callSid"

text \<open>
  The elapsed time is kept in milliseconds: the source divides by 1000 and compares with
  seconds, the model compares with thousands. A missing start time, or the start time 0,
  gives 0.
\<close>

definition getCallElapsedTime :: "world \<Rightarrow> sys \<Rightarrow> sid \<Rightarrow> int" where
  "getCallElapsedTime w st callSid =
     (case callStartTimes st callSid of
        None \<Rightarrow> 0
      | Some startTime \<Rightarrow> if startTime = 0 then 0 else now w - startTime)"

definition hasProcessedAction :: "sys \<Rightarrow> sid \<Rightarrow> action_tag \<Rightarrow> bool" where
  "hasProcessedAction st callSid a =
     (case processedActions st callSid of None \<Rightarrow> False | Some actions \<Rightarrow> a \<in> actions)"

definition markActionProcessed :: "sid \<Rightarrow> action_tag \<Rightarrow> sys \<Rightarrow> sys" where
  "markActionProcessed callSid a st =
     emit [Marked callSid a]
       (st\<lparr>processedActions := (processedActions st)
             (callSid \<mapsto> insert a (case processedActions st callSid of
                                       None \<Rightarrow> {} | Some actions \<Rightarrow> actions))\<rparr>)"

definition cleanupCallState :: "sid \<Rightarrow> sys \<Rightarrow> sys" where
  "cleanupCallState callSid st =
     emit [CleanedUp callSid]
       (st\<lparr>callStates := (callStates st)(callSid := None),
           callTranscripts := (callTranscripts st)(callSid := None),
           callStartTimes := (callStartTimes st)(callSid := None),
           amdResults := (amdResults st)(callSid := None),
           processedActions := (processedActions st)(callSid := None)\<rparr>)"

section \<open>The action functions\<close>

text \<open>
  Each action function catches whatever goes wrong inside it, so none of them throws.
  \<open>playIOS26Response\<close> answers \<open>SUCCESS\<close>, \<open>ABORTED\<close> or nothing (\<open>Undefined\<close>,
  after an unexpected failure of the update); the other two answer nothing, and what
  their update does is invisible to the caller. The REST client is taken to be
  available.
\<close>

datatype dispatch_result = SUCCESS | ABORTED | Undefined

definition terminal_status :: "string \<Rightarrow> bool" where
  "terminal_status s =
     (s = ''completed'' \<or> s = ''busy'' \<or> s = ''failed'' \<or> s = ''canceled'')"

definition benign_update_error :: "int option \<Rightarrow> string \<Rightarrow> bool" where
  "benign_update_error code message =
     (code = Some 20001 \<or> str_includes message ''not be modified''
      \<or> str_includes message ''cannot be updated'' \<or> str_includes message ''already'')"

definition playIOS26Response :: "world \<Rightarrow> sid \<Rightarrow> sys \<Rightarrow> dispatch_result \<times> sys" where
  "playIOS26Response w callSid st =
     (let st1 = emit [Invoked callSid Identify, ApiDelay 100, ApiFetch callSid] st;
          update =
            (let st2 = emit [ApiUpdate callSid Identify] st1
             in case update_result w of
                  UpdateOk \<Rightarrow> (SUCCESS, st2)
                | UpdateFails code message \<Rightarrow>
                    if benign_update_error code message then (ABORTED, st2)
                    else (Undefined, st2))
      in case fetch_result w of
           None \<Rightarrow> update
         | Some call \<Rightarrow>
             if terminal_status (status call) then (ABORTED, st1)
             else (case dateUpdated call of
                     None \<Rightarrow> update
                   | Some updatedAt \<Rightarrow>
                       if fetch_clock w - updatedAt < 2000 then (ABORTED, st1)
                       else update))"

definition leaveVoicemailMessage :: "world \<Rightarrow> sid \<Rightarrow> sys \<Rightarrow> sys" where
  "leaveVoicemailMessage w callSid st =
     emit [Invoked callSid LeaveVoicemail, ApiUpdate callSid LeaveVoicemail] st"

definition stopTranscriptionAndPassthrough :: "world \<Rightarrow> sid \<Rightarrow> sys \<Rightarrow> sys" where
  "stopTranscriptionAndPassthrough w callSid st =
     emit [Invoked callSid Passthrough, ApiUpdate callSid Passthrough] st"

section \<open>Scenario detection\<close>

text \<open>
  The transcript window: the new text is appended after a space, and the last 300
  characters are kept.
\<close>

definition slice_last :: "nat \<Rightarrow> string \<Rightarrow> string" where
  "slice_last n text = drop (length text - n) text"

definition accumulate :: "string \<Rightarrow> string \<Rightarrow> string" where
  "accumulate window transcript =
     (let accumulated = window @ '' '' @ trim transcript
      in if length accumulated > 300 then slice_last 300 accumulated else accumulated)"

text \<open>
  What \<open>processTranscriptionWithScenarios\<close> returns: a detection (its type and its
  action) or null, with the state it leaves. Each section of the function is a block that
  either returns (\<open>Some\<close> of what it returns) or falls through to the statement after it
  (\<open>None\<close>). The blocks get the values the function reads at its start: the state,
  the elapsed time and the window. The arguments \<open>isFinal\<close>, \<open>context\<close>,
  \<open>primaryPhrase\<close> and the two messages have no part in what is decided and are left
  out.
\<close>

type_synonym detection = "string \<times> string"
type_synonym outcome = "detection option \<times> sys"

definition scenario3 ::
  "world \<Rightarrow> string \<Rightarrow> sid \<Rightarrow> call_state \<Rightarrow> int \<Rightarrow> string \<Rightarrow> sys \<Rightarrow> outcome option" where
  "scenario3 w transcript callSid currentState elapsedTime accumulated st =
     (if currentState = INITIAL \<and> elapsedTime > 5000 \<and> elapsedTime < 35000
      then (let isEarlyHuman = (detectHumanSpeech transcript \<or> detectHumanSpeech accumulated);
                noIOS26 = (\<not> detectIOS26Patterns transcript \<and> \<not> detectIOS26Patterns accumulated);
                amdSaysHuman = (getAMDResult st callSid = Some ''human'')
            in if (isEarlyHuman \<or> amdSaysHuman) \<and> noIOS26
               then (if hasProcessedAction st callSid human_passthrough then Some (None, st)
                     else Some (Some (''scenario3'', ''passthrough''),
                                markActionProcessed callSid human_passthrough
                                  (setCallState callSid PASSTHROUGH
                                    (stopTranscriptionAndPassthrough w callSid st))))
               else None)
      else None)"

definition scenario3_fallback ::
  "world \<Rightarrow> string \<Rightarrow> sid \<Rightarrow> call_state \<Rightarrow> int \<Rightarrow> string \<Rightarrow> sys \<Rightarrow> outcome option" where
  "scenario3_fallback w transcript callSid currentState elapsedTime accumulated st =
     (if currentState = INITIAL \<and> elapsedTime > 20000 \<and> elapsedTime < 25000
      then (let noIOS26InAccumulated = (\<not> detectIOS26Patterns accumulated);
                amdNotMachine = (getAMDResult st callSid \<noteq> Some ''machine_start''
                                 \<and> getAMDResult st callSid \<noteq> Some ''machine_end_beep'')
            in if noIOS26InAccumulated \<and> amdNotMachine
                  \<and> \<not> hasProcessedAction st callSid human_passthrough_fallback
               then Some (Some (''scenario3_fallback'', ''passthrough''),
                          markActionProcessed callSid human_passthrough_fallback
                            (setCallState callSid PASSTHROUGH
                              (stopTranscriptionAndPassthrough w callSid st)))
               else None)
      else None)"

definition scenario4 ::
  "world \<Rightarrow> string \<Rightarrow> sid \<Rightarrow> call_state \<Rightarrow> int \<Rightarrow> string \<Rightarrow> sys \<Rightarrow> outcome option" where
  "scenario4 w transcript callSid currentState elapsedTime accumulated st =
     (if currentState = INITIAL \<and> elapsedTime < 30000
      then (let isVoicemail = (detectVoicemailPatterns transcript \<or> detectVoicemailPatterns accumulated);
                noIOS26 = (\<not> detectIOS26Patterns transcript \<and> \<not> detectIOS26Patterns accumulated);
                amdSaysMachine = (getAMDResult st callSid = Some ''machine_start''
                                  \<or> getAMDResult st callSid = Some ''machine_end_beep'')
            in if (isVoicemail \<or> amdSaysMachine) \<and> noIOS26
               then (if hasProcessedAction st callSid voicemail_direct then Some (None, st)
                     else Some (Some (''scenario4'', ''voicemail''),
                                leaveVoicemailMessage w callSid
                                  (setCallState callSid VOICEMAIL_DELIVERED
                                    (markActionProcessed callSid voicemail_direct st))))
               else None)
      else None)"

text \<open>
  The two blocks that answer the screening preamble read the state again before they
  act, and give up when it is already \<open>IOS26_MONITORING\<close>.
\<close>

definition respond_to_ios26 :: "world \<Rightarrow> sid \<Rightarrow> detection \<Rightarrow> sys \<Rightarrow> outcome" where
  "respond_to_ios26 w callSid d st =
     (if getCallState st callSid = IOS26_MONITORING then (None, st)
      else (case playIOS26Response w callSid (setCallState callSid IOS26_MONITORING st) of
              (result, st') \<Rightarrow> if result = ABORTED then (None, st') else (Some d, st')))"

definition scenario1 ::
  "world \<Rightarrow> string \<Rightarrow> sid \<Rightarrow> call_state \<Rightarrow> int \<Rightarrow> string \<Rightarrow> sys \<Rightarrow> outcome option" where
  "scenario1 w transcript callSid currentState elapsedTime accumulated st =
     (if currentState = INITIAL
      then (let isIOS26 = (detectIOS26Patterns transcript \<or> detectIOS26Patterns accumulated)
            in if isIOS26
               then Some (respond_to_ios26 w callSid (''scenario1'', ''ios26_response'') st)
               else None)
      else None)"

definition scenario1_retro ::
  "world \<Rightarrow> string \<Rightarrow> sid \<Rightarrow> call_state \<Rightarrow> int \<Rightarrow> string \<Rightarrow> sys \<Rightarrow> outcome option" where
  "scenario1_retro w transcript callSid currentState elapsedTime accumulated st =
     (if currentState = INITIAL
      then (let isIntermediatePrompt = detectIntermediatePrompts transcript
            in if isIntermediatePrompt \<and> elapsedTime < 12000
               then Some (respond_to_ios26 w callSid
                            (''scenario1_inferred'', ''ios26_response_late'') st)
               else None)
      else None)"

definition scenario2 ::
  "world \<Rightarrow> string \<Rightarrow> sid \<Rightarrow> call_state \<Rightarrow> int \<Rightarrow> string \<Rightarrow> sys \<Rightarrow> outcome option" where
  "scenario2 w transcript callSid currentState elapsedTime accumulated st =
     (if currentState = IOS26_MONITORING
      then (if detectIntermediatePrompts transcript then Some (None, st)
            else if detectVoicemailPatterns transcript \<or> detectVoicemailPatterns accumulated
            then (if hasProcessedAction st callSid voicemail_after_ios26 then Some (None, st)
                  else Some (Some (''scenario1_voicemail'', ''voicemail''),
                             leaveVoicemailMessage w callSid
                               (setCallState callSid VOICEMAIL_DELIVERED
                                 (markActionProcessed callSid voicemail_after_ios26 st))))
            else if detectHumanSpeech transcript \<or> detectHumanSpeech accumulated
            then (if hasProcessedAction st callSid human_after_ios26 then Some (None, st)
                  else Some (Some (''scenario2'', ''passthrough''),
                             markActionProcessed callSid human_after_ios26
                               (setCallState callSid PASSTHROUGH
                                 (stopTranscriptionAndPassthrough w callSid st))))
            else None)
      else None)"

definition or_else :: "'a option \<Rightarrow> 'a \<Rightarrow> 'a" where
  "or_else block rest = (case block of Some returned \<Rightarrow> returned | None \<Rightarrow> rest)"

definition processTranscriptionWithScenarios ::
  "world \<Rightarrow> string \<Rightarrow> sid \<Rightarrow> sys \<Rightarrow> outcome" where
  "processTranscriptionWithScenarios w transcript callSid st0 =
     (let currentState = getCallState st0 callSid;
          elapsedTime = getCallElapsedTime w st0 callSid;
          accumulated =
            accumulate (case callTranscripts st0 callSid of None \<Rightarrow> [] | Some t \<Rightarrow> t) transcript;
          st = st0\<lparr>callTranscripts := (callTranscripts st0)(callSid \<mapsto> accumulated)\<rparr>
      in or_else (scenario3 w transcript callSid currentState elapsedTime accumulated st)
        (or_else (scenario3_fallback w transcript callSid currentState elapsedTime accumulated st)
          (if currentState = PASSTHROUGH then (None, st)
           else or_else (scenario4 w transcript callSid currentState elapsedTime accumulated st)
             (or_else (scenario1 w transcript callSid currentState elapsedTime accumulated st)
               (or_else (scenario1_retro w transcript callSid currentState elapsedTime accumulated st)
                 (or_else (scenario2 w transcript callSid currentState elapsedTime accumulated st)
                   (None, st)))))))"

section \<open>The webhook handler\<close>

text \<open>
  The fields of a webhook that the handler reads. A text field that is missing is the
  empty string: the handler only tests such a field for being non-empty and compares it
  with literals. \<open>TranscriptionData\<close> is what the handler gets out of the field of that
  name: nothing when it is missing or empty (\<open>NoData\<close>), a failure when parsing it or
  reading the transcript off it throws (\<open>BadData\<close>), and otherwise the transcript, the
  empty string when the parsed value has none. Of the TwiML the handler answers with,
  only the kind is kept: empty, pause and redirect, or start of the transcription.
\<close>

datatype transcription_data = NoData | BadData | Data string

record event =
  CallSid :: sid
  CallStatus :: string
  AnsweredBy :: string
  TranscriptionEvent :: string
  TranscriptionData :: transcription_data

datatype twiml = EmptyResponse | PauseRedirect | StartTranscription

definition handler :: "world \<Rightarrow> event \<Rightarrow> sys \<Rightarrow> twiml \<times> sys" where
  "handler w event st =
     (let callSid = CallSid event;
          callStatus = CallStatus event;
          amdResult = AnsweredBy event;
          transcriptionEvent = TranscriptionEvent event;
          transcriptionData = TranscriptionData event
      in if transcriptionEvent = [] \<and> callSid \<noteq> []
            \<and> (getCallState st callSid = PASSTHROUGH
                \<or> getCallState st callSid = VOICEMAIL_DELIVERED)
         then (EmptyResponse, st)
         else if amdResult \<noteq> [] then (EmptyResponse, setAMDResult callSid amdResult st)
         else if transcriptionEvent = ''transcription-content'' \<and> transcriptionData \<noteq> NoData
         then (let st1 = (if callStates st callSid = None
                          then initializeCallState w callSid st else st)
               in case transcriptionData of
                    Data transcript \<Rightarrow>
                      if trim transcript \<noteq> []
                      then (EmptyResponse,
                            snd (processTranscriptionWithScenarios w transcript callSid st1))
                      else (EmptyResponse, st1)
                  | _ \<Rightarrow> (EmptyResponse, st1))
         else if transcriptionEvent = ''transcription-started'' then (EmptyResponse, st)
         else if transcriptionEvent = ''transcription-stopped''
         then (EmptyResponse, st\<lparr>callTranscripts := (callTranscripts st)(callSid := None)\<rparr>)
         else if callStatus = ''completed'' \<or> callStatus = ''failed''
                 \<or> callStatus = ''canceled'' \<or> callStatus = ''no-answer''
         then (EmptyResponse, cleanupCallState callSid st)
         else if (callStatus = ''initiated'' \<or> callStatus = ''ringing''
                  \<or> callStatus = ''in-progress'' \<or> callStatus = ''answered'')
                 \<or> (callStatus = [] \<and> callSid \<noteq> [] \<and> transcriptionEvent = [])
         then (let existingState = getCallState st callSid
               in if existingState \<noteq> UNKNOWN \<and> existingState \<noteq> INITIAL
                  then (PauseRedirect, st)
                  else (StartTranscription, initializeCallState w callSid st))
         else (PauseRedirect, st))"

text \<open>A sequence of webhooks, handled one after the other.\<close>

fun run :: "(world \<times> event) list \<Rightarrow> sys \<Rightarrow> sys" where
  "run [] st = st"
| "run ((w, e) # es) st = run es (snd (handler w e st))"

text \<open>
  The three kinds of webhook the function is sent: a status callback, an
  answering-machine result and a transcript. \<open>at_time t\<close> is an invocation at clock \<open>t\<close>
  during which the REST client finds the call in progress, never updated before, and
  accepts an update.
\<close>

definition lifecycle :: "sid \<Rightarrow> string \<Rightarrow> event" where
  "lifecycle callSid callStatus =
     \<lparr>CallSid = callSid, CallStatus = callStatus, AnsweredBy = [], TranscriptionEvent = [],
      TranscriptionData = NoData\<rparr>"

definition machine_detection :: "sid \<Rightarrow> string \<Rightarrow> event" where
  "machine_detection callSid answeredBy =
     \<lparr>CallSid = callSid, CallStatus = [], AnsweredBy = answeredBy, TranscriptionEvent = [],
      TranscriptionData = NoData\<rparr>"

definition transcript_content :: "sid \<Rightarrow> transcription_data \<Rightarrow> event" where
  "transcript_content callSid d =
     \<lparr>CallSid = callSid, CallStatus = [], AnsweredBy = [],
      TranscriptionEvent = ''transcription-content'', TranscriptionData = d\<rparr>"

definition at_time :: "int \<Rightarrow> world" where
  "at_time t =
     \<lparr>now = t, fetch_result = Some \<lparr>status = ''in-progress'', dateUpdated = None\<rparr>,
      fetch_clock = t + 100, update_result = UpdateOk\<rparr>"

section \<open>Reading the trace\<close>

text \<open>
  The session of a call is what the trace holds since the call was last cleaned up. Of
  a session we read the values written to the call's state, the tags marked for it and
  the action functions called for it, each in order.
\<close>

definition since_cleanup :: "sid \<Rightarrow> effect list \<Rightarrow> effect list" where
  "since_cleanup callSid tr = rev (takeWhile (\<lambda>e. e \<noteq> CleanedUp callSid) (rev tr))"

definition session :: "sid \<Rightarrow> sys \<Rightarrow> effect list" where
  "session callSid st = since_cleanup callSid (trace st)"

definition state_writes :: "sid \<Rightarrow> effect list \<Rightarrow> call_state list" where
  "state_writes callSid tr =
     concat (map (\<lambda>e. case e of StateWrite c s \<Rightarrow> if c = callSid then [s] else [] | _ \<Rightarrow> []) tr)"

definition marks :: "sid \<Rightarrow> effect list \<Rightarrow> action_tag list" where
  "marks callSid tr =
     concat (map (\<lambda>e. case e of Marked c a \<Rightarrow> if c = callSid then [a] else [] | _ \<Rightarrow> []) tr)"

definition invocations :: "sid \<Rightarrow> effect list \<Rightarrow> action list" where
  "invocations callSid tr =
     concat (map (\<lambda>e. case e of Invoked c a \<Rightarrow> if c = callSid then [a] else [] | _ \<Rightarrow> []) tr)"

text \<open>
  The two ways through the states, each with its two ends. A sequence of written state
  values is forward-only when, repetitions of a value dropped, it is the beginning of
  one of them.
\<close>

definition state_paths :: "call_state list list" where
  "state_paths =
     [[INITIAL, IOS26_MONITORING, PASSTHROUGH],
      [INITIAL, IOS26_MONITORING, VOICEMAIL_DELIVERED],
      [INITIAL, PASSTHROUGH],
      [INITIAL, VOICEMAIL_DELIVERED]]"

definition forward_only :: "call_state list \<Rightarrow> bool" where
  "forward_only ws = list_ex (prefix (remdups_adj ws)) state_paths"

text \<open>
  What every session looks like, by the state the call is in: the states written so
  far, the tags marked and the actions called. A call in state \<open>INITIAL\<close> or
  \<open>IOS26_MONITORING\<close> has no tag marked.
\<close>

fun session_shape ::
  "call_state option \<Rightarrow> call_state list \<Rightarrow> action_tag list \<Rightarrow> action list \<Rightarrow> bool" where
  "session_shape None ws ms acts = (ws = [] \<and> ms = [] \<and> acts = [])"
| "session_shape (Some UNKNOWN) ws ms acts = False"
| "session_shape (Some INITIAL) ws ms acts = (ws = [INITIAL] \<and> ms = [] \<and> acts = [])"
| "session_shape (Some IOS26_MONITORING) ws ms acts =
     (ws = [INITIAL, IOS26_MONITORING] \<and> ms = [] \<and> acts = [Identify])"
| "session_shape (Some PASSTHROUGH) ws ms acts =
     ((ws = [INITIAL, PASSTHROUGH] \<and> acts = [Passthrough]
       \<and> (ms = [human_passthrough] \<or> ms = [human_passthrough_fallback]))
      \<or> (ws = [INITIAL, IOS26_MONITORING, PASSTHROUGH] \<and> acts = [Identify, Passthrough]
          \<and> ms = [human_after_ios26]))"
| "session_shape (Some VOICEMAIL_DELIVERED) ws ms acts =
     ((ws = [INITIAL, VOICEMAIL_DELIVERED] \<and> acts = [LeaveVoicemail]
       \<and> ms = [voicemail_direct])
      \<or> (ws = [INITIAL, IOS26_MONITORING, VOICEMAIL_DELIVERED]
          \<and> acts = [Identify, LeaveVoicemail] \<and> ms = [voicemail_after_ios26]))"

definition resolved :: "sys \<Rightarrow> sid \<Rightarrow> bool" where
  "resolved st callSid =
     (callStates st callSid = Some PASSTHROUGH \<or> callStates st callSid = Some VOICEMAIL_DELIVERED)"

definition session_inv :: "sid \<Rightarrow> sys \<Rightarrow> bool" where
  "session_inv callSid st =
     (session_shape (callStates st callSid)
        (remdups_adj (state_writes callSid (session callSid st)))
        (marks callSid (session callSid st))
        (invocations callSid (session callSid st))
      \<and> (resolved st callSid \<or> processedActions st callSid = None))"

section \<open>The order of the scenario checks, as the specification words it\<close>

text \<open>
  The specification has the checks tried in a fixed order, the first one that resolves
  with a result that is not null deciding, and null returned when none does. A check
  that does not apply, or that answers null, hands the state it leaves to the next one.
\<close>

type_synonym branch = "sys \<Rightarrow> outcome option"

fun first_resolved :: "branch list \<Rightarrow> sys \<Rightarrow> outcome" where
  "first_resolved [] st = (None, st)"
| "first_resolved (b # bs) st =
     (case b st of
        None \<Rightarrow> first_resolved bs st
      | Some (None, st') \<Rightarrow> first_resolved bs st'
      | Some (Some d, st') \<Rightarrow> (Some d, st'))"

definition resolve_in_order :: "world \<Rightarrow> string \<Rightarrow> sid \<Rightarrow> sys \<Rightarrow> outcome" where
  "resolve_in_order w transcript callSid st0 =
     (let currentState = getCallState st0 callSid;
          elapsedTime = getCallElapsedTime w st0 callSid;
          accumulated =
            accumulate (case callTranscripts st0 callSid of None \<Rightarrow> [] | Some t \<Rightarrow> t) transcript;
          st = st0\<lparr>callTranscripts := (callTranscripts st0)(callSid \<mapsto> accumulated)\<rparr>
      in first_resolved
           [scenario3 w transcript callSid currentState elapsedTime accumulated,
            scenario3_fallback w transcript callSid currentState elapsedTime accumulated,
            scenario4 w transcript callSid currentState elapsedTime accumulated,
            scenario1 w transcript callSid currentState elapsedTime accumulated,
            scenario1_retro w transcript callSid currentState elapsedTime accumulated,
            scenario2 w transcript callSid currentState elapsedTime accumulated]
           st)"

section \<open>The transcript window over several transcripts\<close>

text \<open>
  The window as the function reads it (a missing window reads as empty), the texts of a
  sequence of transcripts as they are appended (each trimmed, after a space), and the
  webhooks that carry them.
\<close>

definition window :: "sys \<Rightarrow> sid \<Rightarrow> string" where
  "window st callSid = (case callTranscripts st callSid of None \<Rightarrow> [] | Some t \<Rightarrow> t)"

definition space_joined :: "string list \<Rightarrow> string" where
  "space_joined texts = concat (map (\<lambda>t. '' '' @ trim t) texts)"

definition transcripts :: "sid \<Rightarrow> (world \<times> string) list \<Rightarrow> (world \<times> event) list" where
  "transcripts callSid wts = map (\<lambda>(w, t). (w, transcript_content callSid (Data t))) wts"

definition spoken :: "(world \<times> string) list \<Rightarrow> string list" where
  "spoken wts = filter (\<lambda>t. trim t \<noteq> []) (map snd wts)"

section \<open>Named inputs\<close>

text \<open>
  When \<open>playIOS26Response\<close> gives up before it updates the call: the fetch succeeded,
  and the call is in a final status or was updated less than two seconds ago.
\<close>

definition aborts :: "world \<Rightarrow> bool" where
  "aborts w =
     (case fetch_result w of
        None \<Rightarrow> False
      | Some call \<Rightarrow>
          terminal_status (status call)
          \<or> (case dateUpdated call of
                None \<Rightarrow> False
              | Some updatedAt \<Rightarrow> fetch_clock w - updatedAt < 2000))"

text \<open>An invocation during which the call has already completed, updated 200 ms before.\<close>

definition finished_call :: world where
  "finished_call =
     \<lparr>now = 1000000,
      fetch_result = Some \<lparr>status = ''completed'', dateUpdated = Some 999900\<rparr>,
      fetch_clock = 1000100, update_result = UpdateOk\<rparr>"

section \<open>The classifier on the specification's examples\<close>

text \<open>
  Claim C8. The four pattern functions give the values of the specification's truth
  table: the preamble example is an iOS 26 pattern, the greeting example a voicemail
  pattern, ``thanks, stay on the line'' an intermediate prompt, the long sentence
  with ``thanks'' not one (it has more than ten words), ``hello, who is this?'' human
  speech and the ``you've reached the voicemail'' greeting not.
\<close>

theorem classifier_truth_table:
  "detectIOS26Patterns ''if you record your name and reason for calling''
   \<and> detectVoicemailPatterns ''please leave a message after the tone''
   \<and> detectIntermediatePrompts ''thanks, stay on the line''
   \<and> \<not> detectIntermediatePrompts
         ''thanks for calling, this is a long sentence about something else entirely''
   \<and> detectHumanSpeech ''hello, who is this?''
   \<and> \<not> detectHumanSpeech
         (''you'' @ [CHR 0x27] @ ''ve reached the voicemail of John, please leave a message'')"
  by code_simp

section \<open>A transcript webhook whose data cannot be read\<close>

text \<open>
  The handler creates the state of a call it does not know before it parses the
  transcript data. So a webhook with unreadable data that is the first one of its call
  leaves a state behind.
\<close>

theorem malformed_payload_counterexample:
  "callStates empty_sys ''CA1'' = None
   \<and> callStates
        (snd (handler (at_time 1000000) (transcript_content ''CA1'' BadData) empty_sys)) ''CA1''
       = Some INITIAL
   \<and> callStartTimes empty_sys ''CA1'' = None
   \<and> callStartTimes
        (snd (handler (at_time 1000000) (transcript_content ''CA1'' BadData) empty_sys)) ''CA1''
       = Some 1000000"
  by code_simp

text \<open>
  Claim C7, amended. A transcript webhook whose data cannot be parsed leaves everything
  as it was when the call has a state already; when it has none, the call is
  initialised (state \<open>INITIAL\<close>, start time now, empty window) and nothing else
  changes. In both cases the answering-machine results and the processed actions are
  untouched and no action function is called.
\<close>

theorem malformed_payload:
  "snd (handler w (transcript_content callSid BadData) st)
     = (if callStates st callSid = None then initializeCallState w callSid st else st)
   \<and> amdResults (snd (handler w (transcript_content callSid BadData) st)) = amdResults st
   \<and> processedActions (snd (handler w (transcript_content callSid BadData) st))
       = processedActions st
   \<and> invocations c (trace (snd (handler w (transcript_content callSid BadData) st)))
       = invocations c (trace st)"
  by (simp add: handler_def transcript_content_def initializeCallState_def emit_def
      invocations_def)

theorem malformed_payload_witness:
  "snd (handler (at_time 1003000) (transcript_content ''CA1'' BadData)
          (run [(at_time 1000000, lifecycle ''CA1'' ''in-progress'')] empty_sys))
     = run [(at_time 1000000, lifecycle ''CA1'' ''in-progress'')] empty_sys"
proof -
  have "callStates (run [(at_time 1000000, lifecycle ''CA1'' ''in-progress'')] empty_sys) ''CA1''
          = Some INITIAL"
    by code_simp
  with malformed_payload [of "at_time 1003000" "''CA1''"
      "run [(at_time 1000000, lifecycle ''CA1'' ''in-progress'')] empty_sys"]
  show ?thesis by simp
qed

section \<open>A status callback for a call that is already known\<close>

text \<open>
  Claim C10. A status callback with status initiated, ringing, in-progress or answered,
  or with a call id and no status, that finds the call in state \<open>INITIAL\<close> initialises
  it again: the start time becomes the current time and the window is emptied, so the
  elapsed time starts at 0 again. When it finds the call in a later state it changes
  nothing.
\<close>

theorem reinitialization:
  assumes "callStatus \<in> {''initiated'', ''ringing'', ''in-progress'', ''answered''}
           \<or> (callStatus = [] \<and> callSid \<noteq> [])"
  shows "(callStates st callSid = Some INITIAL \<longrightarrow>
            snd (handler w (lifecycle callSid callStatus) st) = initializeCallState w callSid st
            \<and> callStates (snd (handler w (lifecycle callSid callStatus) st)) callSid
                = Some INITIAL
            \<and> callStartTimes (snd (handler w (lifecycle callSid callStatus) st)) callSid
                = Some (now w)
            \<and> callTranscripts (snd (handler w (lifecycle callSid callStatus) st)) callSid
                = Some []
            \<and> getCallElapsedTime w (snd (handler w (lifecycle callSid callStatus) st)) callSid
                = 0)
         \<and> (callStates st callSid
               \<in> {Some IOS26_MONITORING, Some PASSTHROUGH, Some VOICEMAIL_DELIVERED} \<longrightarrow>
             snd (handler w (lifecycle callSid callStatus) st) = st)"
  using assms
  by (auto simp add: lifecycle_def handler_def getCallState_def initializeCallState_def
      emit_def getCallElapsedTime_def Let_def)

theorem reinitialization_witness:
  "callStartTimes
     (snd (handler (at_time 1004000) (lifecycle ''CA1'' ''ringing'')
        (run [(at_time 1000000, lifecycle ''CA1'' ''initiated''),
              (at_time 1002000, transcript_content ''CA1'' (Data ''good morning''))] empty_sys)))
     ''CA1'' = Some 1004000
   \<and> callTranscripts
     (snd (handler (at_time 1004000) (lifecycle ''CA1'' ''ringing'')
        (run [(at_time 1000000, lifecycle ''CA1'' ''initiated''),
              (at_time 1002000, transcript_content ''CA1'' (Data ''good morning''))] empty_sys)))
     ''CA1'' = Some []"
proof -
  define st where "st = run [(at_time 1000000, lifecycle ''CA1'' ''initiated''),
              (at_time 1002000, transcript_content ''CA1'' (Data ''good morning''))] empty_sys"
  have s: "callStates st ''CA1'' = Some INITIAL"
    unfolding st_def by code_simp
  have n: "now (at_time 1004000) = 1004000"
    by (simp add: at_time_def)
  have a: "''ringing'' \<in> {''initiated'', ''ringing'', ''in-progress'', ''answered''}
           \<or> (''ringing'' = [] \<and> ''CA1'' \<noteq> [])"
    by simp
  from reinitialization [OF a, where w = "at_time 1004000" and st = st] s n
  have "callStartTimes (snd (handler (at_time 1004000) (lifecycle ''CA1'' ''ringing'') st)) ''CA1''
          = Some 1004000
        \<and> callTranscripts (snd (handler (at_time 1004000) (lifecycle ''CA1'' ''ringing'') st)) ''CA1''
          = Some []"
    by (simp add: initializeCallState_def emit_def)
  then show ?thesis unfolding st_def .
qed

section \<open>The guards of the action functions\<close>

text \<open>
  Only \<open>playIOS26Response\<close> waits, fetches the call and gives up on what it finds. On a
  call that has completed and was updated 200 ms before, the other two action functions
  send their update all the same, without waiting and without fetching the call.
\<close>

theorem dispatcher_guard_counterexample:
  "trace (leaveVoicemailMessage finished_call ''CA1'' empty_sys)
     = [Invoked ''CA1'' LeaveVoicemail, ApiUpdate ''CA1'' LeaveVoicemail]
   \<and> trace (stopTranscriptionAndPassthrough finished_call ''CA1'' empty_sys)
     = [Invoked ''CA1'' Passthrough, ApiUpdate ''CA1'' Passthrough]"
  by (simp add: leaveVoicemailMessage_def stopTranscriptionAndPassthrough_def emit_def
      empty_sys_def)

text \<open>
  Claim C5, amended. Identify (\<open>playIOS26Response\<close>) waits 100 ms and fetches the call
  before anything else; when the fetched call is in a final status or was updated less
  than two seconds ago it answers \<open>ABORTED\<close> and sends no update; otherwise (also when
  the fetch fails or the call carries no update time) it sends the update, and answers
  \<open>SUCCESS\<close>, or \<open>ABORTED\<close> when the update is refused as a concurrent modification.
  LeaveVoicemail and Passthrough send their update at once, whatever the state of the
  call, and answer nothing.
\<close>

theorem dispatcher_guard:
  "(if aborts w
    then playIOS26Response w callSid st
           = (ABORTED, emit [Invoked callSid Identify, ApiDelay 100, ApiFetch callSid] st)
    else snd (playIOS26Response w callSid st)
           = emit [Invoked callSid Identify, ApiDelay 100, ApiFetch callSid,
                   ApiUpdate callSid Identify] st
         \<and> fst (playIOS26Response w callSid st)
           = (case update_result w of
                UpdateOk \<Rightarrow> SUCCESS
              | UpdateFails code message \<Rightarrow>
                  if benign_update_error code message then ABORTED else Undefined))
   \<and> leaveVoicemailMessage w callSid st
       = emit [Invoked callSid LeaveVoicemail, ApiUpdate callSid LeaveVoicemail] st
   \<and> stopTranscriptionAndPassthrough w callSid st
       = emit [Invoked callSid Passthrough, ApiUpdate callSid Passthrough] st"
  by (auto simp add: aborts_def playIOS26Response_def leaveVoicemailMessage_def
      stopTranscriptionAndPassthrough_def emit_def Let_def
      split: option.splits update_outcome.splits)

theorem dispatcher_guard_witness:
  "aborts finished_call
   \<and> playIOS26Response finished_call ''CA1'' empty_sys
       = (ABORTED, emit [Invoked ''CA1'' Identify, ApiDelay 100, ApiFetch ''CA1''] empty_sys)
   \<and> \<not> aborts (at_time 1000000)
   \<and> fst (playIOS26Response (at_time 1000000) ''CA1'' empty_sys) = SUCCESS"
proof -
  have a: "aborts finished_call"
    by (simp add: aborts_def finished_call_def terminal_status_def)
  have b: "\<not> aborts (at_time 1000000)"
    by (simp add: aborts_def at_time_def terminal_status_def)
  from dispatcher_guard [of finished_call "''CA1''" empty_sys]
    dispatcher_guard [of "at_time 1000000" "''CA1''" empty_sys] a b
  show ?thesis by (simp add: at_time_def)
qed

section \<open>The walkthrough of a direct answer\<close>

text \<open>
  Claim C6. The claim expects that, after a status callback in-progress at t = 0, with
  no preamble and no answering-machine result, the transcript ``hello?'' at t = 8 s is
  taken for a human answering directly: Passthrough called through the early-human
  check and the state \<open>PASSTHROUGH\<close>. The description of \<open>detectHumanSpeech\<close> in the
  source promises the same (greetings such as hello, anything with a question mark). The
  code does otherwise: \<open>detectHumanSpeech\<close> is false on ``hello?'', on the transcript
  and on the window alike, the function returns null, no action function is called and
  the call stays in state \<open>INITIAL\<close>.
\<close>

theorem hello_not_detected:
  "\<not> detectHumanSpeech ''hello?''
   \<and> \<not> detectHumanSpeech '' hello?''
   \<and> fst (processTranscriptionWithScenarios (at_time 1008000) ''hello?'' ''CA1''
          (run [(at_time 1000000, lifecycle ''CA1'' ''in-progress'')] empty_sys)) = None
   \<and> callStates (run [(at_time 1000000, lifecycle ''CA1'' ''in-progress''),
                      (at_time 1008000, transcript_content ''CA1'' (Data ''hello?''))]
                   empty_sys) ''CA1''
       = Some INITIAL
   \<and> trace (run [(at_time 1000000, lifecycle ''CA1'' ''in-progress''),
                 (at_time 1008000, transcript_content ''CA1'' (Data ''hello?''))]
              empty_sys)
       = [StateWrite ''CA1'' INITIAL]"
  by code_simp

section \<open>Marking, state change and action: which comes first\<close>

text \<open>
  Claim C4. The claim asks that the tag be marked and the state changed before the
  action function is called, for the human cases too. The code does so for the two
  voicemail cases only. In the human cases it calls
  \<open>stopTranscriptionAndPassthrough\<close> first and changes the state and marks the tag
  afterwards: below, the trace of a direct answer, of a human after the preamble, and,
  for comparison, of a voicemail after the preamble.
\<close>

theorem passthrough_before_mark:
  "trace (run [(at_time 1000000, lifecycle ''CA1'' ''in-progress''),
               (at_time 1008000, transcript_content ''CA1'' (Data ''hello, who is this?''))]
            empty_sys)
     = [StateWrite ''CA1'' INITIAL,
        Invoked ''CA1'' Passthrough, ApiUpdate ''CA1'' Passthrough,
        StateWrite ''CA1'' PASSTHROUGH, Marked ''CA1'' human_passthrough]
   \<and> trace (run [(at_time 1000000, lifecycle ''CA1'' ''in-progress''),
               (at_time 1003000,
                transcript_content ''CA1'' (Data ''if you record your name and reason for calling'')),
               (at_time 1018000, transcript_content ''CA1'' (Data ''hello, who is this?''))]
            empty_sys)
     = [StateWrite ''CA1'' INITIAL,
        StateWrite ''CA1'' IOS26_MONITORING,
        Invoked ''CA1'' Identify, ApiDelay 100, ApiFetch ''CA1'', ApiUpdate ''CA1'' Identify,
        Invoked ''CA1'' Passthrough, ApiUpdate ''CA1'' Passthrough,
        StateWrite ''CA1'' PASSTHROUGH, Marked ''CA1'' human_after_ios26]
   \<and> trace (run [(at_time 1000000, lifecycle ''CA1'' ''in-progress''),
               (at_time 1003000,
                transcript_content ''CA1'' (Data ''if you record your name and reason for calling'')),
               (at_time 1020000,
                transcript_content ''CA1'' (Data ''please leave a message after the tone''))]
            empty_sys)
     = [StateWrite ''CA1'' INITIAL,
        StateWrite ''CA1'' IOS26_MONITORING,
        Invoked ''CA1'' Identify, ApiDelay 100, ApiFetch ''CA1'', ApiUpdate ''CA1'' Identify,
        Marked ''CA1'' voicemail_after_ios26, StateWrite ''CA1'' VOICEMAIL_DELIVERED,
        Invoked ''CA1'' LeaveVoicemail, ApiUpdate ''CA1'' LeaveVoicemail]"
  by code_simp

section \<open>Facts about the trace\<close>

lemma since_cleanup_append_keep:
  assumes "CleanedUp c \<notin> set es"
  shows "since_cleanup c (tr @ es) = since_cleanup c tr @ es"
proof -
  from assms have "takeWhile (\<lambda>e. e \<noteq> CleanedUp c) (rev es @ rev tr)
                     = rev es @ takeWhile (\<lambda>e. e \<noteq> CleanedUp c) (rev tr)"
    by (intro takeWhile_append2) auto
  then show ?thesis by (simp add: since_cleanup_def)
qed

lemma since_cleanup_append_cleaned: "since_cleanup c (tr @ [CleanedUp c]) = []"
  by (simp add: since_cleanup_def)

lemma state_writes_append: "state_writes c (xs @ ys) = state_writes c xs @ state_writes c ys"
  by (simp add: state_writes_def)

lemma marks_append: "marks c (xs @ ys) = marks c xs @ marks c ys"
  by (simp add: marks_def)

lemma invocations_append: "invocations c (xs @ ys) = invocations c xs @ invocations c ys"
  by (simp add: invocations_def)

lemma read_single [simp]:
  "state_writes c [StateWrite k s] = (if k = c then [s] else [])"
  "state_writes c [Marked k a] = []"
  "state_writes c [CleanedUp k] = []"
  "state_writes c [Invoked k b] = []"
  "state_writes c [ApiDelay n] = []"
  "state_writes c [ApiFetch k] = []"
  "state_writes c [ApiUpdate k b] = []"
  "marks c [StateWrite k s] = []"
  "marks c [Marked k a] = (if k = c then [a] else [])"
  "marks c [CleanedUp k] = []"
  "marks c [Invoked k b] = []"
  "marks c [ApiDelay n] = []"
  "marks c [ApiFetch k] = []"
  "marks c [ApiUpdate k b] = []"
  "invocations c [StateWrite k s] = []"
  "invocations c [Marked k a] = []"
  "invocations c [CleanedUp k] = []"
  "invocations c [Invoked k b] = (if k = c then [b] else [])"
  "invocations c [ApiDelay n] = []"
  "invocations c [ApiFetch k] = []"
  "invocations c [ApiUpdate k b] = []"
  by (simp_all add: state_writes_def marks_def invocations_def)

lemma read_cons:
  "state_writes c (e # e' # es) = state_writes c [e] @ state_writes c (e' # es)"
  "marks c (e # e' # es) = marks c [e] @ marks c (e' # es)"
  "invocations c (e # e' # es) = invocations c [e] @ invocations c (e' # es)"
  by (simp_all add: state_writes_def marks_def invocations_def)

lemmas read_simps = session_def since_cleanup_append_keep state_writes_append marks_append
  invocations_append emit_def read_cons

lemma remdups_adj_snoc:
  "remdups_adj (xs @ [y]) =
     (if xs = [] then [y] else if last xs = y then remdups_adj xs else remdups_adj xs @ [y])"
proof (induction xs rule: rev_induct)
  case Nil
  then show ?case by simp
next
  case (snoc x xs)
  then show ?case by (simp add: remdups_adj_append_two)
qed

lemma remdups_adj_snoc_known:
  assumes "remdups_adj xs = ys" and "ys \<noteq> []"
  shows "remdups_adj (xs @ [y]) = (if last ys = y then ys else ys @ [y])"
  using assms last_remdups_adj [of xs] remdups_adj_Nil_iff [of xs]
  by (simp add: remdups_adj_snoc del: last_remdups_adj remdups_adj_Nil_iff)

section \<open>The scenario checks, one block at a time\<close>

text \<open>
  Whatever \<open>processTranscriptionWithScenarios\<close> returns is what one of its six blocks
  returned, or it is null with nothing done beyond the new window.
\<close>

lemma process_cases:
  fixes w t k st0
  defines "acc \<equiv> accumulate (case callTranscripts st0 k of None \<Rightarrow> [] | Some t \<Rightarrow> t) t"
  defines "st \<equiv> st0\<lparr>callTranscripts := (callTranscripts st0)(k \<mapsto> acc)\<rparr>"
  assumes res: "processTranscriptionWithScenarios w t k st0 = (r, st')"
  obtains (block) b where
      "b \<in> {scenario3, scenario3_fallback, scenario4, scenario1, scenario1_retro, scenario2}"
      "b w t k (getCallState st0 k) (getCallElapsedTime w st0 k) acc st = Some (r, st')"
    | (nothing) "r = None" "st' = st"
proof -
  let ?s = "getCallState st0 k" and ?el = "getCallElapsedTime w st0 k"
  have chain:
    "or_else (scenario3 w t k ?s ?el acc st)
      (or_else (scenario3_fallback w t k ?s ?el acc st)
        (if ?s = PASSTHROUGH then (None, st)
         else or_else (scenario4 w t k ?s ?el acc st)
           (or_else (scenario1 w t k ?s ?el acc st)
             (or_else (scenario1_retro w t k ?s ?el acc st)
               (or_else (scenario2 w t k ?s ?el acc st) (None, st)))))) = (r, st')"
    using res unfolding processTranscriptionWithScenarios_def Let_def acc_def st_def .
  show thesis
  proof (cases "scenario3 w t k ?s ?el acc st")
    case (Some x)
    with chain show thesis by (intro block [of scenario3]) (simp_all add: or_else_def)
  next
    case n3: None
    show thesis
    proof (cases "scenario3_fallback w t k ?s ?el acc st")
      case (Some x)
      with chain n3 show thesis
        by (intro block [of scenario3_fallback]) (simp_all add: or_else_def)
    next
      case n3f: None
      show thesis
      proof (cases "?s = PASSTHROUGH")
        case True
        with chain n3 n3f have "r = None" "st' = st" by (simp_all add: or_else_def)
        then show thesis by (rule nothing)
      next
        case np: False
        show thesis
        proof (cases "scenario4 w t k ?s ?el acc st")
          case (Some x)
          with chain n3 n3f np show thesis
            by (intro block [of scenario4]) (simp_all add: or_else_def)
        next
          case n4: None
          show thesis
          proof (cases "scenario1 w t k ?s ?el acc st")
            case (Some x)
            with chain n3 n3f np n4 show thesis
              by (intro block [of scenario1]) (simp_all add: or_else_def)
          next
            case n1: None
            show thesis
            proof (cases "scenario1_retro w t k ?s ?el acc st")
              case (Some x)
              with chain n3 n3f np n4 n1 show thesis
                by (intro block [of scenario1_retro]) (simp_all add: or_else_def)
            next
              case n1r: None
              show thesis
              proof (cases "scenario2 w t k ?s ?el acc st")
                case (Some x)
                with chain n3 n3f np n4 n1 n1r show thesis
                  by (intro block [of scenario2]) (simp_all add: or_else_def)
              next
                case None
                with chain n3 n3f np n4 n1 n1r have "r = None" "st' = st"
                  by (simp_all add: or_else_def)
                then show thesis by (rule nothing)
              qed
            qed
          qed
        qed
      qed
    qed
  qed
qed

section \<open>The shape of a session is kept\<close>

lemma session_inv_callTranscripts [simp]:
  "session_inv c (st\<lparr>callTranscripts := x\<rparr>) = session_inv c st"
  by (simp add: session_inv_def session_def resolved_def)

lemma session_inv_setAMDResult [simp]:
  "session_inv c (setAMDResult k r st) = session_inv c st"
  by (simp add: session_inv_def session_def setAMDResult_def resolved_def)

lemma session_inv_initialize:
  assumes "session_inv c st" and "callStates st k = None \<or> callStates st k = Some INITIAL"
  shows "session_inv c (initializeCallState w k st)"
proof (cases "k = c")
  case False
  with assms(1) show ?thesis
    by (simp add: session_inv_def resolved_def initializeCallState_def read_simps)
next
  case True
  from assms(2) show ?thesis
  proof
    assume "callStates st k = None"
    with assms(1) True show ?thesis
      by (simp add: session_inv_def resolved_def initializeCallState_def read_simps)
  next
    assume "callStates st k = Some INITIAL"
    with assms(1) True show ?thesis
      by (simp add: session_inv_def resolved_def initializeCallState_def read_simps
          remdups_adj_snoc_known)
  qed
qed

lemma session_inv_cleanup:
  assumes "session_inv c st"
  shows "session_inv c (cleanupCallState k st)"
proof (cases "k = c")
  case False
  with assms show ?thesis
    by (simp add: session_inv_def resolved_def cleanupCallState_def read_simps)
next
  case True
  then show ?thesis
    by (simp add: session_inv_def resolved_def cleanupCallState_def session_def emit_def
        since_cleanup_append_cleaned state_writes_def marks_def invocations_def)
qed

lemma session_inv_identify:
  assumes "session_inv c st" and "callStates st k = Some INITIAL"
  shows "session_inv c (snd (playIOS26Response w k (setCallState k IOS26_MONITORING st)))"
proof (cases "k = c")
  case False
  with assms(1) show ?thesis
    by (simp add: session_inv_def resolved_def playIOS26Response_def setCallState_def read_simps
        Let_def split: option.splits update_outcome.splits)
next
  case True
  with assms show ?thesis
    by (simp add: session_inv_def resolved_def playIOS26Response_def setCallState_def read_simps
        Let_def remdups_adj_snoc_known split: option.splits update_outcome.splits)
qed

lemma session_inv_respond:
  assumes "respond_to_ios26 w k d st = (r, st')"
    and "session_inv c st" and "callStates st k = Some INITIAL"
  shows "session_inv c st'"
  using assms session_inv_identify [OF assms(2,3), of w]
  by (auto simp add: respond_to_ios26_def split: prod.splits if_splits)

lemma session_inv_passthrough:
  assumes "session_inv c st"
    and "(callStates st k = Some INITIAL
          \<and> (tg = human_passthrough \<or> tg = human_passthrough_fallback))
         \<or> (callStates st k = Some IOS26_MONITORING \<and> tg = human_after_ios26)"
  shows "session_inv c (markActionProcessed k tg (setCallState k PASSTHROUGH
           (stopTranscriptionAndPassthrough w k st)))"
proof (cases "k = c")
  case False
  with assms(1) show ?thesis
    by (simp add: session_inv_def resolved_def markActionProcessed_def setCallState_def
        stopTranscriptionAndPassthrough_def read_simps)
next
  case True
  with assms show ?thesis
    by (auto simp add: session_inv_def resolved_def markActionProcessed_def setCallState_def
        stopTranscriptionAndPassthrough_def read_simps remdups_adj_snoc_known)
qed

lemma session_inv_voicemail:
  assumes "session_inv c st"
    and "(callStates st k = Some INITIAL \<and> tg = voicemail_direct)
         \<or> (callStates st k = Some IOS26_MONITORING \<and> tg = voicemail_after_ios26)"
  shows "session_inv c (leaveVoicemailMessage w k (setCallState k VOICEMAIL_DELIVERED
           (markActionProcessed k tg st)))"
proof (cases "k = c")
  case False
  with assms(1) show ?thesis
    by (simp add: session_inv_def resolved_def markActionProcessed_def setCallState_def
        leaveVoicemailMessage_def read_simps)
next
  case True
  with assms show ?thesis
    by (auto simp add: session_inv_def resolved_def markActionProcessed_def setCallState_def
        leaveVoicemailMessage_def read_simps remdups_adj_snoc_known)
qed

lemma block_inv:
  assumes "b \<in> {scenario3, scenario3_fallback, scenario4, scenario1, scenario1_retro, scenario2}"
    and "b w t k s el acc st = Some (r, st')"
    and "session_inv c st" and "callStates st k = Some s"
  shows "session_inv c st'"
proof -
  from assms(1) consider "b = scenario3" | "b = scenario3_fallback" | "b = scenario4"
    | "b = scenario1" | "b = scenario1_retro" | "b = scenario2"
    by auto
  then show ?thesis
  proof cases
    case 1
    with assms(2-4) show ?thesis
      by (auto simp add: scenario3_def Let_def split: if_splits
          intro!: session_inv_passthrough)
  next
    case 2
    with assms(2-4) show ?thesis
      by (auto simp add: scenario3_fallback_def Let_def split: if_splits
          intro!: session_inv_passthrough)
  next
    case 3
    with assms(2-4) show ?thesis
      by (auto simp add: scenario4_def Let_def split: if_splits
          intro!: session_inv_voicemail)
  next
    case 4
    with assms(2-4) show ?thesis
      by (auto simp add: scenario1_def Let_def split: if_splits
          dest: session_inv_respond)
  next
    case 5
    with assms(2-4) show ?thesis
      by (auto simp add: scenario1_retro_def Let_def split: if_splits
          dest: session_inv_respond)
  next
    case 6
    with assms(2-4) show ?thesis
      by (auto simp add: scenario2_def Let_def split: if_splits
          intro!: session_inv_passthrough session_inv_voicemail)
  qed
qed

lemma process_inv:
  assumes "session_inv c st0" and "callStates st0 k = Some s"
  shows "session_inv c (snd (processTranscriptionWithScenarios w t k st0))"
proof -
  obtain r st' where res: "processTranscriptionWithScenarios w t k st0 = (r, st')"
    by (cases "processTranscriptionWithScenarios w t k st0")
  let ?acc = "accumulate (case callTranscripts st0 k of None \<Rightarrow> [] | Some t \<Rightarrow> t) t"
  let ?st = "st0\<lparr>callTranscripts := (callTranscripts st0)(k \<mapsto> ?acc)\<rparr>"
  have inv: "session_inv c ?st" using assms(1) by simp
  have cs: "callStates ?st k = Some (getCallState st0 k)"
    using assms(2) by (simp add: getCallState_def)
  have "session_inv c st'"
  proof (rule process_cases [OF res])
    fix b
    assume "b \<in> {scenario3, scenario3_fallback, scenario4, scenario1, scenario1_retro, scenario2}"
      and "b w t k (getCallState st0 k) (getCallElapsedTime w st0 k) ?acc ?st = Some (r, st')"
    from block_inv [where b = b, OF this inv cs] show ?thesis .
  next
    assume "r = None" and "st' = ?st"
    with inv show ?thesis by simp
  qed
  with res show ?thesis by simp
qed

lemma handler_inv:
  assumes "session_inv c st" and "session_inv (CallSid e) st"
  shows "session_inv c (snd (handler w e st))"
proof -
  have known: "callStates st (CallSid e) \<noteq> Some UNKNOWN"
    using assms(2) by (auto simp add: session_inv_def)
  have init: "session_inv c (initializeCallState w (CallSid e) st)"
    if "callStates st (CallSid e) = None \<or> callStates st (CallSid e) = Some INITIAL"
    using assms(1) that by (rule session_inv_initialize)
  have proc: "session_inv c (snd (processTranscriptionWithScenarios w t (CallSid e) st))"
    if "callStates st (CallSid e) \<noteq> None" for t
    using assms(1) that by (auto intro: process_inv)
  have late: "session_inv c (snd (processTranscriptionWithScenarios w t (CallSid e)
                 (initializeCallState w (CallSid e) st)))"
    if "callStates st (CallSid e) = None" for t
    using init that by (auto intro!: process_inv simp add: initializeCallState_def emit_def)
  have unk: "getCallState st (CallSid e) = UNKNOWN \<Longrightarrow> callStates st (CallSid e) = None"
    using known by (auto simp add: getCallState_def split: option.splits)
  have ini: "getCallState st (CallSid e) = INITIAL \<Longrightarrow> callStates st (CallSid e) = Some INITIAL"
    by (auto simp add: getCallState_def split: option.splits)
  show ?thesis
    using assms(1) init proc late unk ini
    by (auto simp add: handler_def Let_def session_inv_cleanup
        split: transcription_data.splits)
qed

lemma run_inv: "(\<And>c. session_inv c st) \<Longrightarrow> session_inv c (run evs st)"
proof (induction evs arbitrary: st c)
  case Nil
  then show ?case by simp
next
  case (Cons a evs)
  obtain w e where a: "a = (w, e)" by (cases a)
  have "\<And>c. session_inv c (snd (handler w e st))"
    using Cons.prems by (simp add: handler_inv)
  then show ?case using Cons.IH a by simp
qed

lemma empty_inv: "session_inv c empty_sys"
  by (simp add: session_inv_def resolved_def empty_sys_def session_def since_cleanup_def
      state_writes_def marks_def invocations_def)

lemma reachable_inv: "session_inv c (run evs empty_sys)"
  by (rule run_inv) (rule empty_inv)

lemma reachable_shape:
  "session_shape (callStates (run evs empty_sys) c)
     (remdups_adj (state_writes c (session c (run evs empty_sys))))
     (marks c (session c (run evs empty_sys)))
     (invocations c (session c (run evs empty_sys)))"
  using reachable_inv [of c evs] by (simp add: session_inv_def)

section \<open>The states of a session only move forward\<close>

lemma shape_forward: "session_shape s ws ms acts \<Longrightarrow> list_ex (prefix ws) state_paths"
  by (cases "(s, ws, ms, acts)" rule: session_shape.cases) (auto simp add: state_paths_def)

lemma shape_last:
  assumes "session_shape s ws ms acts" and "remdups_adj xs = ws"
  shows "s = (if xs = [] then None else Some (last xs))"
proof -
  have l: "xs \<noteq> [] \<Longrightarrow> last xs = last ws"
    using assms(2) last_remdups_adj [of xs] by simp
  have e: "xs = [] \<longleftrightarrow> ws = []"
    using assms(2) remdups_adj_Nil_iff [of xs] by auto
  from assms(1) l e show ?thesis
    by (cases "(s, ws, ms, acts)" rule: session_shape.cases) auto
qed

text \<open>
  Claim C2. Whatever webhooks are handled, one after the other, starting with no call
  known: the state values written for a call since it was last cleaned up are, with
  repetitions dropped, the beginning of \<open>INITIAL\<close>, \<open>IOS26_MONITORING\<close>, then
  \<open>PASSTHROUGH\<close> or \<open>VOICEMAIL_DELIVERED\<close>, or of \<open>INITIAL\<close>, then \<open>PASSTHROUGH\<close>
  or \<open>VOICEMAIL_DELIVERED\<close>. So the state never goes back, never returns to
  \<open>INITIAL\<close> once it has left it, and never goes from one final state to the other.
  The state the call is in is the last value written.
\<close>

theorem forward_only_states:
  "forward_only (state_writes c (session c (run evs empty_sys)))
   \<and> callStates (run evs empty_sys) c
       = (if state_writes c (session c (run evs empty_sys)) = [] then None
          else Some (last (state_writes c (session c (run evs empty_sys)))))"
proof
  show "forward_only (state_writes c (session c (run evs empty_sys)))"
    unfolding forward_only_def using reachable_shape by (rule shape_forward)
  show "callStates (run evs empty_sys) c
       = (if state_writes c (session c (run evs empty_sys)) = [] then None
          else Some (last (state_writes c (session c (run evs empty_sys)))))"
    using reachable_shape refl by (rule shape_last)
qed

theorem forward_only_states_witness:
  "forward_only (state_writes ''CA1'' (session ''CA1'' (run
      [(at_time 1000000, lifecycle ''CA1'' ''initiated''),
       (at_time 1001000, lifecycle ''CA1'' ''in-progress''),
       (at_time 1003000,
        transcript_content ''CA1'' (Data ''if you record your name and reason for calling'')),
       (at_time 1004000, lifecycle ''CA1'' ''answered''),
       (at_time 1018000, transcript_content ''CA1'' (Data ''hello, who is this?'')),
       (at_time 1019000, transcript_content ''CA1'' (Data ''please leave a message'')),
       (at_time 1020000, lifecycle ''CA1'' ''in-progress'')]
      empty_sys)))
   \<and> state_writes ''CA1'' (session ''CA1'' (run
      [(at_time 1000000, lifecycle ''CA1'' ''initiated''),
       (at_time 1001000, lifecycle ''CA1'' ''in-progress''),
       (at_time 1003000,
        transcript_content ''CA1'' (Data ''if you record your name and reason for calling'')),
       (at_time 1004000, lifecycle ''CA1'' ''answered''),
       (at_time 1018000, transcript_content ''CA1'' (Data ''hello, who is this?'')),
       (at_time 1019000, transcript_content ''CA1'' (Data ''please leave a message'')),
       (at_time 1020000, lifecycle ''CA1'' ''in-progress'')]
      empty_sys))
     = [INITIAL, INITIAL, IOS26_MONITORING, PASSTHROUGH]"
proof -
  have "state_writes ''CA1'' (session ''CA1'' (run
      [(at_time 1000000, lifecycle ''CA1'' ''initiated''),
       (at_time 1001000, lifecycle ''CA1'' ''in-progress''),
       (at_time 1003000,
        transcript_content ''CA1'' (Data ''if you record your name and reason for calling'')),
       (at_time 1004000, lifecycle ''CA1'' ''answered''),
       (at_time 1018000, transcript_content ''CA1'' (Data ''hello, who is this?'')),
       (at_time 1019000, transcript_content ''CA1'' (Data ''please leave a message'')),
       (at_time 1020000, lifecycle ''CA1'' ''in-progress'')]
      empty_sys))
     = [INITIAL, INITIAL, IOS26_MONITORING, PASSTHROUGH]"
    by code_simp
  with forward_only_states [THEN conjunct1] show ?thesis by (rule conjI)
qed

section \<open>Tags and actions within a session\<close>

text \<open>
  The same transcript delivered twice: the first delivery finds a preamble pattern
  (``state your name'') and calls Identify, the second finds the call monitored and a
  voicemail pattern (``leave a message'') and calls LeaveVoicemail. The replay of the
  triggering webhook has brought a second call of an action function.
\<close>

theorem replay_counterexample:
  "invocations ''CA1'' (trace (run
      [(at_time 1000000, lifecycle ''CA1'' ''in-progress''),
       (at_time 1003000,
        transcript_content ''CA1'' (Data ''please state your name and leave a message''))]
      empty_sys)) = [Identify]
   \<and> invocations ''CA1'' (trace (run
      [(at_time 1000000, lifecycle ''CA1'' ''in-progress''),
       (at_time 1003000,
        transcript_content ''CA1'' (Data ''please state your name and leave a message'')),
       (at_time 1003000,
        transcript_content ''CA1'' (Data ''please state your name and leave a message''))]
      empty_sys)) = [Identify, LeaveVoicemail]"
  by code_simp

text \<open>
  A webhook that ends the call cleans its state up; a transcript that arrives after it
  starts the call afresh, and Identify is called a second time for the same call id.
\<close>

lemma identify_twice_across_cleanup:
  "invocations ''CA1'' (trace (run
      [(at_time 1000000, lifecycle ''CA1'' ''in-progress''),
       (at_time 1003000,
        transcript_content ''CA1'' (Data ''if you record your name and reason for calling'')),
       (at_time 1004000, lifecycle ''CA1'' ''completed''),
       (at_time 1005000,
        transcript_content ''CA1'' (Data ''if you record your name and reason for calling''))]
      empty_sys)) = [Identify, Identify]"
  by code_simp

lemma shape_once:
  "session_shape s ws ms acts \<Longrightarrow>
     acts \<in> {[], [Identify], [LeaveVoicemail], [Passthrough],
             [Identify, LeaveVoicemail], [Identify, Passthrough]}
     \<and> length ms \<le> 1"
  by (cases "(s, ws, ms, acts)" rule: session_shape.cases) auto

text \<open>
  Once a call is in state \<open>PASSTHROUGH\<close> or \<open>VOICEMAIL_DELIVERED\<close>, no webhook of
  that call has an action function called: a transcript finds no check that applies,
  and every other webhook is answered without any.
\<close>

lemma process_resolved:
  assumes "callStates st0 k = Some PASSTHROUGH \<or> callStates st0 k = Some VOICEMAIL_DELIVERED"
  shows "trace (snd (processTranscriptionWithScenarios w t k st0)) = trace st0"
proof -
  from assms have s: "getCallState st0 k = PASSTHROUGH \<or> getCallState st0 k = VOICEMAIL_DELIVERED"
    by (auto simp add: getCallState_def)
  obtain r st' where res: "processTranscriptionWithScenarios w t k st0 = (r, st')"
    by (cases "processTranscriptionWithScenarios w t k st0")
  have "trace st' = trace st0"
  proof (rule process_cases [OF res])
    fix b
    assume b: "b \<in> {scenario3, scenario3_fallback, scenario4, scenario1, scenario1_retro, scenario2}"
      and "b w t k (getCallState st0 k) (getCallElapsedTime w st0 k)
             (accumulate (case callTranscripts st0 k of None \<Rightarrow> [] | Some t \<Rightarrow> t) t)
             (st0\<lparr>callTranscripts := (callTranscripts st0)
                 (k \<mapsto> accumulate (case callTranscripts st0 k of None \<Rightarrow> [] | Some t \<Rightarrow> t) t)\<rparr>)
           = Some (r, st')"
    with s have False
      by (auto simp add: scenario3_def scenario3_fallback_def scenario4_def scenario1_def
          scenario1_retro_def scenario2_def)
    then show ?thesis ..
  next
    assume "r = None"
      and "st' = st0\<lparr>callTranscripts := (callTranscripts st0)
                 (k \<mapsto> accumulate (case callTranscripts st0 k of None \<Rightarrow> [] | Some t \<Rightarrow> t) t)\<rparr>"
    then show ?thesis by simp
  qed
  with res show ?thesis by simp
qed

lemma handler_resolved:
  assumes "resolved st (CallSid e)"
  shows "invocations c (trace (snd (handler w e st))) = invocations c (trace st)"
proof -
  have known: "callStates st (CallSid e) \<noteq> None"
    using assms by (auto simp add: resolved_def)
  have state: "getCallState st (CallSid e) \<noteq> UNKNOWN" "getCallState st (CallSid e) \<noteq> INITIAL"
    using assms by (auto simp add: resolved_def getCallState_def)
  have proc: "\<And>t. trace (snd (processTranscriptionWithScenarios w t (CallSid e) st)) = trace st"
    using assms by (intro process_resolved) (simp add: resolved_def)
  show ?thesis
    using known state proc
    by (auto simp add: handler_def Let_def setAMDResult_def cleanupCallState_def emit_def
        invocations_append split: transcription_data.splits)
qed

text \<open>
  Claim C1, amended. Whatever webhooks are handled, one after the other, starting with
  no call known: in the session of a call (since the call was last cleaned up) at most
  one tag is marked, so each tag at most once; the action functions called are, in
  order, none, Identify alone, LeaveVoicemail or Passthrough alone, or Identify followed
  by LeaveVoicemail or by Passthrough, so each action is called at most once and none
  after LeaveVoicemail or Passthrough; and once the call is resolved, no further webhook
  of the call, a replay of the triggering one included, has any action function called.
  The one replay that can bring a second call is that of the webhook that brought
  Identify: it can bring LeaveVoicemail or Passthrough, never Identify again.
\<close>

theorem at_most_once:
  "invocations c (session c (run evs empty_sys))
     \<in> {[], [Identify], [LeaveVoicemail], [Passthrough],
         [Identify, LeaveVoicemail], [Identify, Passthrough]}
   \<and> length (marks c (session c (run evs empty_sys))) \<le> 1
   \<and> (CallSid e = c \<and> resolved (run evs empty_sys) c \<longrightarrow>
        invocations c (trace (snd (handler w e (run evs empty_sys))))
          = invocations c (trace (run evs empty_sys)))"
proof -
  have "invocations c (session c (run evs empty_sys))
     \<in> {[], [Identify], [LeaveVoicemail], [Passthrough],
         [Identify, LeaveVoicemail], [Identify, Passthrough]}
     \<and> length (marks c (session c (run evs empty_sys))) \<le> 1"
    using reachable_shape by (rule shape_once)
  moreover have "CallSid e = c \<and> resolved (run evs empty_sys) c \<longrightarrow>
        invocations c (trace (snd (handler w e (run evs empty_sys))))
          = invocations c (trace (run evs empty_sys))"
    using handler_resolved [of "run evs empty_sys" e c w] by auto
  ultimately show ?thesis by simp
qed

theorem at_most_once_witness:
  "resolved (run
      [(at_time 1000000, lifecycle ''CA1'' ''in-progress''),
       (at_time 1008000, transcript_content ''CA1'' (Data ''hello, who is this?''))]
      empty_sys) ''CA1''
   \<and> invocations ''CA1'' (trace (run
      [(at_time 1000000, lifecycle ''CA1'' ''in-progress''),
       (at_time 1008000, transcript_content ''CA1'' (Data ''hello, who is this?''))]
      empty_sys)) = [Passthrough]
   \<and> invocations ''CA1'' (trace (snd (handler (at_time 1008000)
        (transcript_content ''CA1'' (Data ''hello, who is this?''))
        (run
          [(at_time 1000000, lifecycle ''CA1'' ''in-progress''),
           (at_time 1008000, transcript_content ''CA1'' (Data ''hello, who is this?''))]
          empty_sys)))) = [Passthrough]"
proof -
  define st where "st = run
      [(at_time 1000000, lifecycle ''CA1'' ''in-progress''),
       (at_time 1008000, transcript_content ''CA1'' (Data ''hello, who is this?''))]
      empty_sys"
  have r: "resolved st ''CA1''"
    unfolding st_def by code_simp
  have i: "invocations ''CA1'' (trace st) = [Passthrough]"
    unfolding st_def by code_simp
  have k: "CallSid (transcript_content ''CA1'' (Data ''hello, who is this?'')) = ''CA1''"
    by (simp add: transcript_content_def)
  from at_most_once [of "''CA1''" "[(at_time 1000000, lifecycle ''CA1'' ''in-progress''),
       (at_time 1008000, transcript_content ''CA1'' (Data ''hello, who is this?''))]"
      "transcript_content ''CA1'' (Data ''hello, who is this?'')" "at_time 1008000"]
    r i k
  have "resolved st ''CA1''
    \<and> invocations ''CA1'' (trace st) = [Passthrough]
    \<and> invocations ''CA1'' (trace (snd (handler (at_time 1008000)
        (transcript_content ''CA1'' (Data ''hello, who is this?'')) st))) = [Passthrough]"
    unfolding st_def [symmetric] by simp
  then show ?thesis unfolding st_def .
qed

section \<open>The order of the scenario checks\<close>

lemma no_tags: "processedActions st k = None \<Longrightarrow> \<not> hasProcessedAction st k a"
  by (simp add: hasProcessedAction_def)

lemma getCallState_after_identify:
  "getCallState (snd (playIOS26Response w k (setCallState k IOS26_MONITORING st))) k
     = IOS26_MONITORING"
  by (simp add: playIOS26Response_def setCallState_def emit_def getCallState_def Let_def
      split: option.splits update_outcome.splits)

lemma respond_again:
  "respond_to_ios26 w k d st = (None, st') \<Longrightarrow> respond_to_ios26 w k d' st' = (None, st')"
  using getCallState_after_identify [of w k st]
  by (auto simp add: respond_to_ios26_def split: prod.splits if_splits)

lemma order_INITIAL:
  assumes "s = INITIAL" and "processedActions st k = None"
  shows "or_else (scenario3 w t k s el acc st)
      (or_else (scenario3_fallback w t k s el acc st)
        (if s = PASSTHROUGH then (None, st)
         else or_else (scenario4 w t k s el acc st)
           (or_else (scenario1 w t k s el acc st)
             (or_else (scenario1_retro w t k s el acc st)
               (or_else (scenario2 w t k s el acc st) (None, st))))))
    = first_resolved
           [scenario3 w t k s el acc,
            scenario3_fallback w t k s el acc,
            scenario4 w t k s el acc,
            scenario1 w t k s el acc,
            scenario1_retro w t k s el acc,
            scenario2 w t k s el acc]
           st"
proof -
  have s3: "scenario3 w t k s el acc st = None
      \<or> (\<exists>d st'. scenario3 w t k s el acc st = Some (Some d, st'))"
    using assms by (simp add: scenario3_def Let_def no_tags)
  have s3f: "scenario3_fallback w t k s el acc st = None
      \<or> (\<exists>d st'. scenario3_fallback w t k s el acc st = Some (Some d, st'))"
    by (simp add: scenario3_fallback_def Let_def)
  have s4: "scenario4 w t k s el acc st = None
      \<or> (\<exists>d st'. scenario4 w t k s el acc st = Some (Some d, st'))"
    using assms by (simp add: scenario4_def Let_def no_tags)
  have s2: "\<And>st'. scenario2 w t k s el acc st' = None"
    using assms by (simp add: scenario2_def)
  have s1: "scenario1 w t k s el acc st = None
     \<or> (\<exists>d st'. scenario1 w t k s el acc st = Some (Some d, st'))
     \<or> (\<exists>st'. scenario1 w t k s el acc st = Some (None, st')
           \<and> (scenario1_retro w t k s el acc st' = None
               \<or> scenario1_retro w t k s el acc st' = Some (None, st')))"
  proof (cases "scenario1 w t k s el acc st")
    case None
    then show ?thesis by simp
  next
    case (Some out)
    obtain r st' where out: "out = (r, st')" by (cases out)
    show ?thesis
    proof (cases r)
      case None
      with Some out
      have "respond_to_ios26 w k (''scenario1'', ''ios26_response'') st = (None, st')"
        by (auto simp add: scenario1_def Let_def split: if_splits)
      then have "respond_to_ios26 w k (''scenario1_inferred'', ''ios26_response_late'') st'
                   = (None, st')"
        by (rule respond_again)
      then have "scenario1_retro w t k s el acc st' = None
                 \<or> scenario1_retro w t k s el acc st' = Some (None, st')"
        by (simp add: scenario1_retro_def Let_def)
      with Some out None show ?thesis by simp
    next
      case (Some d)
      with \<open>scenario1 w t k s el acc st = Some out\<close> out show ?thesis by simp
    qed
  qed
  let ?rest4 = "or_else (scenario4 w t k s el acc st)
           (or_else (scenario1 w t k s el acc st)
             (or_else (scenario1_retro w t k s el acc st)
               (or_else (scenario2 w t k s el acc st) (None, st))))"
  let ?bs1 = "[scenario1 w t k s el acc, scenario1_retro w t k s el acc,
               scenario2 w t k s el acc]"
  have tail1: "or_else (scenario1 w t k s el acc st)
             (or_else (scenario1_retro w t k s el acc st)
               (or_else (scenario2 w t k s el acc st) (None, st)))
         = first_resolved ?bs1 st"
    using s1
  proof (elim disjE exE conjE)
    assume n: "scenario1 w t k s el acc st = None"
    show ?thesis
    proof (cases "scenario1_retro w t k s el acc st")
      case None
      with n show ?thesis by (simp add: or_else_def s2)
    next
      case (Some out)
      obtain r st' where "out = (r, st')" by (cases out)
      with n Some show ?thesis by (cases r) (simp_all add: or_else_def s2)
    qed
  next
    fix d st' assume "scenario1 w t k s el acc st = Some (Some d, st')"
    then show ?thesis by (simp add: or_else_def)
  next
    fix st' assume "scenario1 w t k s el acc st = Some (None, st')"
      and "scenario1_retro w t k s el acc st' = None"
    then show ?thesis by (simp add: or_else_def s2)
  next
    fix st' assume "scenario1 w t k s el acc st = Some (None, st')"
      and "scenario1_retro w t k s el acc st' = Some (None, st')"
    then show ?thesis by (simp add: or_else_def s2)
  qed
  have tail4: "?rest4 = first_resolved (scenario4 w t k s el acc # ?bs1) st"
    using s4 tail1 by (auto simp add: or_else_def)
  have tail3f:
    "or_else (scenario3_fallback w t k s el acc st)
       (if s = PASSTHROUGH then (None, st) else ?rest4)
     = first_resolved
         (scenario3_fallback w t k s el acc # scenario4 w t k s el acc # ?bs1) st"
    using s3f tail4 assms(1) by (auto simp add: or_else_def)
  show ?thesis
    using s3 tail3f by (auto simp add: or_else_def)
qed

lemma order_other:
  assumes "s \<noteq> INITIAL"
  shows "or_else (scenario3 w t k s el acc st)
      (or_else (scenario3_fallback w t k s el acc st)
        (if s = PASSTHROUGH then (None, st)
         else or_else (scenario4 w t k s el acc st)
           (or_else (scenario1 w t k s el acc st)
             (or_else (scenario1_retro w t k s el acc st)
               (or_else (scenario2 w t k s el acc st) (None, st))))))
    = first_resolved
           [scenario3 w t k s el acc,
            scenario3_fallback w t k s el acc,
            scenario4 w t k s el acc,
            scenario1 w t k s el acc,
            scenario1_retro w t k s el acc,
            scenario2 w t k s el acc]
           st"
proof -
  have n: "scenario3 w t k s el acc st = None" "scenario3_fallback w t k s el acc st = None"
    "scenario4 w t k s el acc st = None" "scenario1 w t k s el acc st = None"
    "scenario1_retro w t k s el acc st = None"
    using assms
    by (simp_all add: scenario3_def scenario3_fallback_def scenario4_def scenario1_def
        scenario1_retro_def)
  have p: "s = PASSTHROUGH \<Longrightarrow> scenario2 w t k s el acc st = None"
    by (simp add: scenario2_def)
  show ?thesis
  proof (cases "scenario2 w t k s el acc st")
    case None
    with n show ?thesis by (simp add: or_else_def)
  next
    case (Some out)
    obtain r st' where "out = (r, st')" by (cases out)
    with n Some p show ?thesis by (cases r) (auto simp add: or_else_def)
  qed
qed

lemma order_inv:
  assumes "session_inv k st0"
  shows "processTranscriptionWithScenarios w t k st0 = resolve_in_order w t k st0"
proof -
  define acc where
    "acc = accumulate (case callTranscripts st0 k of None \<Rightarrow> [] | Some t \<Rightarrow> t) t"
  define st where "st = st0\<lparr>callTranscripts := (callTranscripts st0)(k \<mapsto> acc)\<rparr>"
  define el where "el = getCallElapsedTime w st0 k"
  define s where "s = getCallState st0 k"
  have tags: "s = INITIAL \<Longrightarrow> processedActions st k = None"
    using assms
    by (auto simp add: s_def st_def getCallState_def session_inv_def resolved_def
        split: option.splits)
  have "or_else (scenario3 w t k s el acc st)
      (or_else (scenario3_fallback w t k s el acc st)
        (if s = PASSTHROUGH then (None, st)
         else or_else (scenario4 w t k s el acc st)
           (or_else (scenario1 w t k s el acc st)
             (or_else (scenario1_retro w t k s el acc st)
               (or_else (scenario2 w t k s el acc st) (None, st))))))
    = first_resolved
           [scenario3 w t k s el acc,
            scenario3_fallback w t k s el acc,
            scenario4 w t k s el acc,
            scenario1 w t k s el acc,
            scenario1_retro w t k s el acc,
            scenario2 w t k s el acc]
           st"
  proof (cases "s = INITIAL")
    case True
    then show ?thesis using tags by (intro order_INITIAL)
  next
    case False
    then show ?thesis by (rule order_other)
  qed
  then show ?thesis
    unfolding processTranscriptionWithScenarios_def resolve_in_order_def Let_def
      acc_def st_def el_def s_def .
qed

text \<open>
  Claim C3. For every transcript, in every state the function can be in (whatever
  webhooks it has handled, one after the other, starting with no call known),
  \<open>processTranscriptionWithScenarios\<close> does what trying the six checks in the order
  early human, timing fallback, direct voicemail, preamble, retroactive preamble,
  monitoring does: the first check that answers with a detection decides, and null is
  returned when none does.
\<close>

theorem fixed_order:
  "processTranscriptionWithScenarios w t k (run evs empty_sys)
     = resolve_in_order w t k (run evs empty_sys)"
  using reachable_inv by (rule order_inv)

theorem fixed_order_witness:
  "processTranscriptionWithScenarios (at_time 1009000)
       ''I cannot take your call, please leave a message'' ''CA1''
       (run [(at_time 1000000, lifecycle ''CA1'' ''in-progress'')] empty_sys)
     = resolve_in_order (at_time 1009000)
         ''I cannot take your call, please leave a message'' ''CA1''
         (run [(at_time 1000000, lifecycle ''CA1'' ''in-progress'')] empty_sys)
   \<and> fst (resolve_in_order (at_time 1009000)
         ''I cannot take your call, please leave a message'' ''CA1''
         (run [(at_time 1000000, lifecycle ''CA1'' ''in-progress'')] empty_sys))
     = Some (''scenario4'', ''voicemail'')"
proof -
  have "fst (resolve_in_order (at_time 1009000)
         ''I cannot take your call, please leave a message'' ''CA1''
         (run [(at_time 1000000, lifecycle ''CA1'' ''in-progress'')] empty_sys))
     = Some (''scenario4'', ''voicemail'')"
    by code_simp
  with fixed_order show ?thesis by (rule conjI)
qed

section \<open>The transcript window\<close>

lemma action_frame [simp]:
  "callTranscripts (markActionProcessed k a st) = callTranscripts st"
  "callTranscripts (setCallState k s st) = callTranscripts st"
  "callTranscripts (stopTranscriptionAndPassthrough w k st) = callTranscripts st"
  "callTranscripts (leaveVoicemailMessage w k st) = callTranscripts st"
  "callTranscripts (snd (playIOS26Response w k st)) = callTranscripts st"
  by (simp_all add: markActionProcessed_def setCallState_def stopTranscriptionAndPassthrough_def
      leaveVoicemailMessage_def playIOS26Response_def emit_def Let_def
      split: option.splits update_outcome.splits)

lemma respond_frame [simp]:
  "callTranscripts (snd (respond_to_ios26 w k d st)) = callTranscripts st"
proof (cases "playIOS26Response w k (setCallState k IOS26_MONITORING st)")
  case (Pair r st')
  with action_frame(5) [of w k "setCallState k IOS26_MONITORING st"] show ?thesis
    by (simp add: respond_to_ios26_def)
qed

lemma respond_frame_eq:
  "respond_to_ios26 w k d st = (r, st') \<Longrightarrow> callTranscripts st' = callTranscripts st"
  using respond_frame [of w k d st] by simp

lemma block_frame:
  assumes "b \<in> {scenario3, scenario3_fallback, scenario4, scenario1, scenario1_retro, scenario2}"
    and "b w t k s el acc st = Some (r, st')"
  shows "callTranscripts st' = callTranscripts st"
proof -
  from assms(1) consider "b = scenario3" | "b = scenario3_fallback" | "b = scenario4" | "b = scenario1" | "b = scenario1_retro" | "b = scenario2"
    by auto
  then show ?thesis
  proof cases
    case 1
    with assms(2) show ?thesis
      by (auto simp add: scenario3_def Let_def 
          split: if_splits dest: respond_frame_eq)
  next
    case 2
    with assms(2) show ?thesis
      by (auto simp add: scenario3_fallback_def Let_def 
          split: if_splits dest: respond_frame_eq)
  next
    case 3
    with assms(2) show ?thesis
      by (auto simp add: scenario4_def Let_def 
          split: if_splits dest: respond_frame_eq)
  next
    case 4
    with assms(2) show ?thesis
      by (auto simp add: scenario1_def Let_def 
          split: if_splits dest: respond_frame_eq)
  next
    case 5
    with assms(2) show ?thesis
      by (auto simp add: scenario1_retro_def Let_def 
          split: if_splits dest: respond_frame_eq)
  next
    case 6
    with assms(2) show ?thesis
      by (auto simp add: scenario2_def Let_def 
          split: if_splits dest: respond_frame_eq)
  qed
qed

lemma process_window:
  "window (snd (processTranscriptionWithScenarios w t k st0)) k = accumulate (window st0 k) t"
proof -
  obtain r st' where res: "processTranscriptionWithScenarios w t k st0 = (r, st')"
    by (cases "processTranscriptionWithScenarios w t k st0")
  have "callTranscripts st' k = Some (accumulate (window st0 k) t)"
  proof (rule process_cases [OF res])
    fix b
    assume "b \<in> {scenario3, scenario3_fallback, scenario4, scenario1, scenario1_retro, scenario2}"
      and "b w t k (getCallState st0 k) (getCallElapsedTime w st0 k)
             (accumulate (case callTranscripts st0 k of None \<Rightarrow> [] | Some t \<Rightarrow> t) t)
             (st0\<lparr>callTranscripts := (callTranscripts st0)
                 (k \<mapsto> accumulate (case callTranscripts st0 k of None \<Rightarrow> [] | Some t \<Rightarrow> t) t)\<rparr>)
           = Some (r, st')"
    from block_frame [where b = b, OF this] show ?thesis by (simp add: window_def)
  next
    assume "r = None"
      and "st' = st0\<lparr>callTranscripts := (callTranscripts st0)
                 (k \<mapsto> accumulate (case callTranscripts st0 k of None \<Rightarrow> [] | Some t \<Rightarrow> t) t)\<rparr>"
    then show ?thesis by (simp add: window_def)
  qed
  with res show ?thesis by (simp add: window_def)
qed

lemma respond_keeps_session:
  "respond_to_ios26 w k d st = (r, st') \<Longrightarrow> callStates st k = Some y \<Longrightarrow> \<exists>y'. callStates st' k = Some y'"
  by (auto simp add: respond_to_ios26_def playIOS26Response_def setCallState_def emit_def Let_def
      split: option.splits update_outcome.splits prod.splits if_splits)

lemma block_keeps_session:
  assumes "b \<in> {scenario3, scenario3_fallback, scenario4, scenario1, scenario1_retro, scenario2}"
    and "b w t k s el acc st = Some (r, st')" and "callStates st k \<noteq> None"
  shows "callStates st' k \<noteq> None"
proof -
  from assms(1) consider "b = scenario3" | "b = scenario3_fallback" | "b = scenario4" | "b = scenario1" | "b = scenario1_retro" | "b = scenario2"
    by auto
  then show ?thesis
  proof cases
    case 1
    with assms(2,3) show ?thesis
      by (auto simp add: scenario3_def Let_def markActionProcessed_def setCallState_def
          stopTranscriptionAndPassthrough_def leaveVoicemailMessage_def emit_def
          split: if_splits dest: respond_keeps_session)
  next
    case 2
    with assms(2,3) show ?thesis
      by (auto simp add: scenario3_fallback_def Let_def markActionProcessed_def setCallState_def
          stopTranscriptionAndPassthrough_def leaveVoicemailMessage_def emit_def
          split: if_splits dest: respond_keeps_session)
  next
    case 3
    with assms(2,3) show ?thesis
      by (auto simp add: scenario4_def Let_def markActionProcessed_def setCallState_def
          stopTranscriptionAndPassthrough_def leaveVoicemailMessage_def emit_def
          split: if_splits dest: respond_keeps_session)
  next
    case 4
    with assms(2,3) show ?thesis
      by (auto simp add: scenario1_def Let_def markActionProcessed_def setCallState_def
          stopTranscriptionAndPassthrough_def leaveVoicemailMessage_def emit_def
          split: if_splits dest: respond_keeps_session)
  next
    case 5
    with assms(2,3) show ?thesis
      by (auto simp add: scenario1_retro_def Let_def markActionProcessed_def setCallState_def
          stopTranscriptionAndPassthrough_def leaveVoicemailMessage_def emit_def
          split: if_splits dest: respond_keeps_session)
  next
    case 6
    with assms(2,3) show ?thesis
      by (auto simp add: scenario2_def Let_def markActionProcessed_def setCallState_def
          stopTranscriptionAndPassthrough_def leaveVoicemailMessage_def emit_def
          split: if_splits dest: respond_keeps_session)
  qed
qed

lemma process_keeps_session:
  assumes "callStates st0 k \<noteq> None"
  shows "callStates (snd (processTranscriptionWithScenarios w t k st0)) k \<noteq> None"
proof -
  obtain r st' where res: "processTranscriptionWithScenarios w t k st0 = (r, st')"
    by (cases "processTranscriptionWithScenarios w t k st0")
  have "callStates st' k \<noteq> None"
  proof (rule process_cases [OF res])
    fix b
    assume "b \<in> {scenario3, scenario3_fallback, scenario4, scenario1, scenario1_retro, scenario2}"
      and "b w t k (getCallState st0 k) (getCallElapsedTime w st0 k)
             (accumulate (case callTranscripts st0 k of None \<Rightarrow> [] | Some t \<Rightarrow> t) t)
             (st0\<lparr>callTranscripts := (callTranscripts st0)
                 (k \<mapsto> accumulate (case callTranscripts st0 k of None \<Rightarrow> [] | Some t \<Rightarrow> t) t)\<rparr>)
           = Some (r, st')"
    from block_keeps_session [where b = b, OF this] assms show ?thesis by simp
  next
    assume "r = None"
      and "st' = st0\<lparr>callTranscripts := (callTranscripts st0)
                 (k \<mapsto> accumulate (case callTranscripts st0 k of None \<Rightarrow> [] | Some t \<Rightarrow> t) t)\<rparr>"
    with assms show ?thesis by simp
  qed
  with res show ?thesis by simp
qed

lemma slice_last_short: "length xs \<le> n \<Longrightarrow> slice_last n xs = xs"
  by (simp add: slice_last_def)

lemma accumulate_slice: "accumulate win t = slice_last 300 (win @ '' '' @ trim t)"
  by (simp add: accumulate_def Let_def slice_last_def)

lemma slice_last_append: "slice_last n (slice_last n xs @ ys) = slice_last n (xs @ ys)"
proof (cases "length xs \<le> n")
  case True
  then show ?thesis by (simp add: slice_last_def)
next
  case False
  then have "length xs + length ys - (length xs - n + n) + (length xs - n)
               = length xs + length ys - n"
    by arith
  with False show ?thesis by (simp add: slice_last_def)
qed

lemma length_slice_last: "length (slice_last n xs) \<le> n"
  by (simp add: slice_last_def)

lemma foldl_accumulate:
  "foldl accumulate (slice_last 300 x) ts = slice_last 300 (x @ space_joined ts)"
proof (induction ts arbitrary: x)
  case Nil
  then show ?case by (simp add: space_joined_def)
next
  case (Cons t ts)
  have "accumulate (slice_last 300 x) t = slice_last 300 (x @ '' '' @ trim t)"
    using slice_last_append [of 300 x "'' '' @ trim t"] by (simp add: accumulate_slice)
  with Cons.IH [of "x @ '' '' @ trim t"] show ?case
    by (simp add: space_joined_def)
qed


lemma handler_transcript:
  assumes "callStates st k \<noteq> None \<or> window st k = []"
  shows "window (snd (handler w (transcript_content k (Data t)) st)) k
           = (if trim t \<noteq> [] then accumulate (window st k) t else window st k)"
    and "trim t \<noteq> [] \<Longrightarrow> callStates (snd (handler w (transcript_content k (Data t)) st)) k \<noteq> None"
proof -
  define st1 where "st1 = (if callStates st k = None then initializeCallState w k st else st)"
  have w1: "window st1 k = window st k"
    using assms by (auto simp add: st1_def window_def initializeCallState_def emit_def)
  have c1: "callStates st1 k \<noteq> None"
    by (simp add: st1_def initializeCallState_def emit_def)
  have h: "snd (handler w (transcript_content k (Data t)) st)
             = (if trim t \<noteq> [] then snd (processTranscriptionWithScenarios w t k st1) else st1)"
    by (simp add: handler_def transcript_content_def st1_def)
  show "window (snd (handler w (transcript_content k (Data t)) st)) k
           = (if trim t \<noteq> [] then accumulate (window st k) t else window st k)"
    using w1 by (simp add: h process_window)
  show "trim t \<noteq> [] \<Longrightarrow> callStates (snd (handler w (transcript_content k (Data t)) st)) k \<noteq> None"
    using c1 by (simp add: h process_keeps_session)
qed

lemma run_transcripts:
  assumes "callStates st k \<noteq> None \<or> window st k = []"
  shows "window (run (transcripts k wts) st) k = foldl accumulate (window st k) (spoken wts)"
  using assms
proof (induction wts arbitrary: st)
  case Nil
  then show ?case by (simp add: transcripts_def spoken_def)
next
  case (Cons a wts)
  obtain w t where a: "a = (w, t)" by (cases a)
  let ?st' = "snd (handler w (transcript_content k (Data t)) st)"
  have step: "window ?st' k = (if trim t \<noteq> [] then accumulate (window st k) t else window st k)"
    using Cons.prems by (rule handler_transcript(1))
  have keep: "callStates ?st' k \<noteq> None \<or> window ?st' k = []"
  proof (cases "trim t \<noteq> []")
    case True
    with handler_transcript(2) [OF Cons.prems] show ?thesis by simp
  next
    case False
    then have "?st' = (if callStates st k = None then initializeCallState w k st else st)"
      by (simp add: handler_def transcript_content_def)
    with Cons.prems show ?thesis
      by (auto simp add: window_def initializeCallState_def emit_def)
  qed
  have "window (run (transcripts k wts) ?st') k = foldl accumulate (window ?st' k) (spoken wts)"
    using keep by (rule Cons.IH)
  then show ?case
    using step by (simp add: a transcripts_def spoken_def)
qed

text \<open>
  Claim C9. Starting from an empty window (the call just initialised, or its window
  just deleted), after any sequence of transcript webhooks of the call the window is at
  most 300 characters long and is the last 300 characters of the texts appended so far,
  each trimmed and preceded by a space, in order. A transcript that is blank is not
  appended.
\<close>

theorem sliding_window:
  assumes "window st k = []"
  shows "window (run (transcripts k wts) st) k = slice_last 300 (space_joined (spoken wts))
         \<and> length (window (run (transcripts k wts) st) k) \<le> 300"
proof -
  have "window (run (transcripts k wts) st) k = foldl accumulate (slice_last 300 []) (spoken wts)"
    using assms run_transcripts [of st k wts] by (simp add: slice_last_def)
  then have "window (run (transcripts k wts) st) k = slice_last 300 (space_joined (spoken wts))"
    by (simp only: foldl_accumulate append_Nil)
  then show ?thesis by (simp add: length_slice_last)
qed

theorem sliding_window_witness:
  "window empty_sys ''CA1'' = []
   \<and> window (run (transcripts ''CA1'' [(at_time 1003000, ''Hi there ''), (at_time 1004000, ''  ''),
                                        (at_time 1005000, ''who is this'')]) empty_sys) ''CA1''
       = '' Hi there who is this''"
proof -
  have e: "window empty_sys ''CA1'' = []" by (simp add: window_def empty_sys_def)
  have "slice_last 300 (space_joined (spoken [(at_time 1003000, ''Hi there ''), (at_time 1004000, ''  ''),
                                        (at_time 1005000, ''who is this'')])) = '' Hi there who is this''"
    by code_simp
  with sliding_window [OF e, of "[(at_time 1003000, ''Hi there ''), (at_time 1004000, ''  ''),
                                        (at_time 1005000, ''who is this'')]"] e
  show ?thesis by simp
qed


end
